theory Spec2Isabelle
  imports Main "HOL-Library.Multiset"
begin

section \<open>YACReader::ConcurrentQueue (concurrent\_queue.h) as a transition system\<close>

text \<open>
  The class is a thread pool: a FIFO \<open>_queue\<close> of jobs guarded by \<open>queueMutex\<close>, a
  counter \<open>jobsLeft\<close> guarded by \<open>jobsLeftMutex\<close>, a flag \<open>bailout\<close>, and
  \<open>threadCount\<close> worker threads that run \<open>nextJob\<close>. The model is an interleaving
  semantics. Every thread has a program counter; one step of a thread is either the
  acquisition of a mutex (enabled only while the mutex is free) or the straight-line
  code the source runs from there to the next point where it releases the mutex, blocks
  on a condition variable or returns. The two mutexes are state (their owner), the two
  condition variables are the sets of threads whose program counter is \<open>W_Blocked\<close>
  (\<open>jobAvailableVar\<close>) or \<open>Wait_Blocked\<close> (\<open>_waitVar\<close>); a blocked thread moves
  only when a notification or a spurious wake-up unblocks it.
\<close>

subsection \<open>Jobs, errors, program counters\<close>

text \<open>
  A job is a \<open>std::function<void(void)>\<close>. What the pool can observe of it is whether
  the call \<open>job()\<close> returns or throws; the test's \<open>Job\<close> adds its \<open>summand\<close> to the
  shared \<open>total\<close>. \<open>job_id\<close> tells two submissions apart.
\<close>

datatype job = Job (job_id: nat) (summand: int) (throws: bool)

text \<open>
  How the process can die: a failed \<open>assert\<close>; undefined behaviour of \<open>++jobsLeft\<close> at
  \<open>INT_MAX\<close> or of \<open>front()\<close> on an empty queue; an exception that leaves the thread
  function of a worker (\<open>std::terminate\<close>).
\<close>

datatype error = AssertFailed | SignedOverflow | EmptyFront | Terminate

definition INT_MAX :: int where
  "INT_MAX = 2147483647"

text \<open>The caller \<open>finalizeJobs\<close> returns to: the worker loop, or \<open>cancelPending\<close>,
  whose frame holds \<open>oldQueue\<close> and which then returns \<open>size = oldQueue.size()\<close>.\<close>

datatype ret = RetWorker | RetCancel "job list"

datatype fate = Taken | Drained

text \<open>
  The history of a run, a variable no step reads: \<open>Pushed j\<close> when \<open>enqueue\<close> has
  appended \<open>j\<close> to \<open>_queue\<close>, \<open>Took j\<close> when a worker has popped \<open>j\<close>,
  \<open>Swapped old\<close> when \<open>cancelPending\<close> has swapped \<open>old\<close> out of \<open>_queue\<close>,
  \<open>Ran j\<close> when the call \<open>job()\<close> of \<open>j\<close> has returned, \<open>Returned n\<close> when a call
  of \<open>cancelPending\<close> has returned \<open>n\<close>.
\<close>

datatype hist = Pushed job | Took job | Swapped "job list" | Ran job | Returned nat

datatype pc =
    Idle
  | Enq_L1 job
  | Enq_Counted job
  | Enq_L2 job
  | Enq_Pushed
  | Can_L
  | Can_Swapped "job list"
  | Fin_L int ret
  | Fin_Dec int ret
  | Wait_L
  | Wait_Blocked
  | Wait_Woken
  | Wait_Re
  | Join_L
  | Join_Flagged
  | Join_Joining nat
  | W_Top
  | W_L
  | W_Blocked
  | W_Woken
  | W_Re
  | W_Job job
  | W_Ran
  | W_Done

text \<open>
  Where each program counter stands in the source (line numbers of concurrent\_queue.h):
  \<^item> \<open>Idle\<close>: a client thread outside the pool's operations.
  \<^item> \<open>Enq_L1 j\<close>: in \<open>enqueue\<close>, holding \<open>jobsLeftMutex\<close> (line 37), before \<open>++jobsLeft\<close>.
  \<^item> \<open>Enq_Counted j\<close>: after line 39, before locking \<open>queueMutex\<close> (line 42).
  \<^item> \<open>Enq_L2 j\<close>: holding \<open>queueMutex\<close>, before \<open>_queue.emplace(job)\<close> (line 43).
  \<^item> \<open>Enq_Pushed\<close>: after line 44, before \<open>jobAvailableVar.notify_one()\<close> (line 46).
  \<^item> \<open>Can_L\<close>: in \<open>cancelPending\<close>, holding \<open>queueMutex\<close> (line 55), before the swap.
  \<^item> \<open>Can_Swapped old\<close>: after line 59, \<open>oldQueue = old\<close>, before line 61.
  \<^item> \<open>Fin_L count ret\<close>: in \<open>finalizeJobs(count)\<close>, holding \<open>jobsLeftMutex\<close> (line 123).
  \<^item> \<open>Fin_Dec remainingJobs ret\<close>: after line 127, before line 129.
  \<^item> \<open>Wait_L\<close>: in \<open>waitAll\<close>, holding \<open>jobsLeftMutex\<close> (line 70), before line 71.
  \<^item> \<open>Wait_Blocked\<close>: blocked in \<open>_waitVar.wait\<close>, mutex released.
  \<^item> \<open>Wait_Woken\<close>: unblocked, before \<open>wait\<close> has re-acquired \<open>jobsLeftMutex\<close>.
  \<^item> \<open>Wait_Re\<close>: mutex re-acquired, before the predicate of line 73 is evaluated again.
  \<^item> \<open>Join_L\<close>: in \<open>joinAll\<close>, holding \<open>queueMutex\<close> (line 137), before line 139.
  \<^item> \<open>Join_Flagged\<close>: after line 144, before \<open>jobAvailableVar.notify_all()\<close> (line 146).
  \<^item> \<open>Join_Joining i\<close>: in the loop of line 148, before \<open>threads[i].join()\<close>.
  \<^item> \<open>W_Top\<close>: a worker at the top of the loop of \<open>nextJob\<close>, before line 94.
  \<^item> \<open>W_L\<close>: holding \<open>queueMutex\<close> (line 94), before line 96.
  \<^item> \<open>W_Blocked\<close>, \<open>W_Woken\<close>, \<open>W_Re\<close>: as for \<open>waitAll\<close>, in \<open>jobAvailableVar.wait\<close>
    (line 100).
  \<^item> \<open>W_Job j\<close>: after line 110 (\<open>job = j\<close>, mutex released), before \<open>job()\<close> (line 112).
  \<^item> \<open>W_Ran\<close>: after \<open>job()\<close>, before \<open>finalizeJobs(1)\<close> (line 113).
  \<^item> \<open>W_Done\<close>: \<open>nextJob\<close> has returned; the thread has ended.
\<close>

subsection \<open>The state\<close>

text \<open>
  The first \<open>threadCount\<close> entries of \<open>pcs\<close> are the workers of the vector
  \<open>threads\<close>, the others are client threads. \<open>total_acc\<close> is the shared \<open>total\<close>
  of the test, to which a job adds its summand.
\<close>

record state =
  queue :: "job list"
  jobsLeft :: int
  bailout :: bool
  queueMutex :: "nat option"
  jobsLeftMutex :: "nat option"
  threadCount :: nat
  pcs :: "pc list"
  total_acc :: int
  history :: "hist list"

text \<open>What the history says: the jobs appended to \<open>_queue\<close>, in order; the jobs that
  left \<open>_queue\<close>, in order, each with how it left; the jobs a worker popped; the jobs
  \<open>cancelPending\<close> drained; the jobs that were run; the values \<open>cancelPending\<close>
  returned.\<close>

fun pushed_of :: "hist \<Rightarrow> job list" where
  "pushed_of (Pushed j) = [j]"
| "pushed_of _ = []"

fun dequeued_of :: "hist \<Rightarrow> (job \<times> fate) list" where
  "dequeued_of (Took j) = [(j, Taken)]"
| "dequeued_of (Swapped old) = map (\<lambda>j. (j, Drained)) old"
| "dequeued_of _ = []"

fun taken_of :: "hist \<Rightarrow> job list" where
  "taken_of (Took j) = [j]"
| "taken_of _ = []"

fun drained_of :: "hist \<Rightarrow> job list" where
  "drained_of (Swapped old) = old"
| "drained_of _ = []"

fun executed_of :: "hist \<Rightarrow> job list" where
  "executed_of (Ran j) = [j]"
| "executed_of _ = []"

fun returned_of :: "hist \<Rightarrow> nat list" where
  "returned_of (Returned n) = [n]"
| "returned_of _ = []"

definition pushed :: "state \<Rightarrow> job list" where
  "pushed s = concat (map pushed_of (history s))"

definition dequeued :: "state \<Rightarrow> (job \<times> fate) list" where
  "dequeued s = concat (map dequeued_of (history s))"

definition taken :: "state \<Rightarrow> job list" where
  "taken s = concat (map taken_of (history s))"

definition drained :: "state \<Rightarrow> job list" where
  "drained s = concat (map drained_of (history s))"

definition executed :: "state \<Rightarrow> job list" where
  "executed s = concat (map executed_of (history s))"

definition returned :: "state \<Rightarrow> nat list" where
  "returned s = concat (map returned_of (history s))"

text \<open>The constructor (lines 17-27): \<open>threadCount\<close> workers, each started on \<open>nextJob\<close>;
  \<open>clients\<close> is the number of other threads that will use the pool.\<close>

definition ConcurrentQueue :: "nat \<Rightarrow> nat \<Rightarrow> state" where
  "ConcurrentQueue n clients =
     \<lparr> queue = [], jobsLeft = 0, bailout = False,
       queueMutex = None, jobsLeftMutex = None,
       threadCount = n, pcs = replicate n W_Top @ replicate clients Idle,
       total_acc = 0, history = [] \<rparr>"

subsection \<open>Steps\<close>

type_synonym outcome = "(error + state) option"

text \<open>\<open>None\<close>: the thread cannot take this step now (the mutex is held, the thread is
  blocked or has ended). \<open>Some (Inl e)\<close>: the process dies. \<open>Some (Inr s)\<close>: the next state.\<close>

abbreviation ok :: "state \<Rightarrow> outcome" where
  "ok s \<equiv> Some (Inr s)"

abbreviation abort :: "error \<Rightarrow> outcome" where
  "abort e \<equiv> Some (Inl e)"

datatype call = Enqueue job | CancelPending | WaitAll | JoinAll

text \<open>
  \<open>Call t c\<close>: the idle client \<open>t\<close> enters an operation and takes its first mutex.
  \<open>Go t\<close>: thread \<open>t\<close> runs to its next program counter. \<open>Signal t w\<close>: \<open>t\<close> runs
  \<open>notify_one\<close> and the library unblocks the waiting worker \<open>w\<close>. \<open>Spurious t\<close>: a
  spurious wake-up of the blocked thread \<open>t\<close>.
\<close>

datatype event = Call nat call | Go nat | Signal nat nat | Spurious nat

definition lock_queue :: "nat \<Rightarrow> pc \<Rightarrow> state \<Rightarrow> outcome" where
  "lock_queue t p s =
     (if queueMutex s = None
      then ok (s\<lparr>queueMutex := Some t, pcs := (pcs s)[t := p]\<rparr>)
      else None)"

definition lock_jobsLeft :: "nat \<Rightarrow> pc \<Rightarrow> state \<Rightarrow> outcome" where
  "lock_jobsLeft t p s =
     (if jobsLeftMutex s = None
      then ok (s\<lparr>jobsLeftMutex := Some t, pcs := (pcs s)[t := p]\<rparr>)
      else None)"

text \<open>\<open>notify_all\<close> on \<open>_waitVar\<close> and on \<open>jobAvailableVar\<close>.\<close>

fun wake_waiter :: "pc \<Rightarrow> pc" where
  "wake_waiter Wait_Blocked = Wait_Woken"
| "wake_waiter p = p"

fun wake_worker :: "pc \<Rightarrow> pc" where
  "wake_worker W_Blocked = W_Woken"
| "wake_worker p = p"

text \<open>\<open>finalizeJobs(count)\<close>, lines 117-132. Entry: line 119, then the lock of line 123.\<close>

definition finalizeJobs :: "nat \<Rightarrow> int \<Rightarrow> ret \<Rightarrow> state \<Rightarrow> outcome" where
  "finalizeJobs t cnt r s =
     (if \<not> cnt > 0 then abort AssertFailed
      else lock_jobsLeft t (Fin_L cnt r) s)"

text \<open>Lines 124-127, under \<open>jobsLeftMutex\<close>.\<close>

definition finalize_decrement :: "nat \<Rightarrow> int \<Rightarrow> ret \<Rightarrow> state \<Rightarrow> outcome" where
  "finalize_decrement t cnt r s =
     (if \<not> jobsLeft s \<ge> cnt then abort AssertFailed
      else ok (s\<lparr>jobsLeft := jobsLeft s - cnt, jobsLeftMutex := None,
                 pcs := (pcs s)[t := Fin_Dec (jobsLeft s - cnt) r]\<rparr>))"

text \<open>Lines 129-131, then the return to the caller: the worker goes back to the top of
  its loop, \<open>cancelPending\<close> returns \<open>size\<close> (line 65).\<close>

definition return_to :: "nat \<Rightarrow> ret \<Rightarrow> state \<Rightarrow> state" where
  "return_to t r s =
     (case r of
        RetWorker \<Rightarrow> s\<lparr>pcs := (pcs s)[t := W_Top]\<rparr>
      | RetCancel oldQueue \<Rightarrow>
          s\<lparr>pcs := (pcs s)[t := Idle],
            history := history s @ [Returned (length oldQueue)]\<rparr>)"

definition finalize_notify :: "nat \<Rightarrow> int \<Rightarrow> ret \<Rightarrow> state \<Rightarrow> outcome" where
  "finalize_notify t remainingJobs r s =
     (if \<not> remainingJobs \<ge> 0 then abort AssertFailed
      else if remainingJobs = 0
        then ok (return_to t r (s\<lparr>pcs := map wake_waiter (pcs s)\<rparr>))
        else ok (return_to t r s))"

text \<open>\<open>enqueue\<close>, lines 34-47.\<close>

definition enqueue_count :: "nat \<Rightarrow> job \<Rightarrow> state \<Rightarrow> outcome" where
  "enqueue_count t j s =
     (if jobsLeft s = INT_MAX then abort SignedOverflow
      else ok (s\<lparr>jobsLeft := jobsLeft s + 1, jobsLeftMutex := None,
                 pcs := (pcs s)[t := Enq_Counted j]\<rparr>))"

definition enqueue_push :: "nat \<Rightarrow> job \<Rightarrow> state \<Rightarrow> outcome" where
  "enqueue_push t j s =
     ok (s\<lparr>queue := queue s @ [j], queueMutex := None,
           pcs := (pcs s)[t := Enq_Pushed], history := history s @ [Pushed j]\<rparr>)"

text \<open>\<open>cancelPending\<close>, lines 51-66: the swap under \<open>queueMutex\<close>, then the rest.\<close>

definition cancel_swap :: "nat \<Rightarrow> state \<Rightarrow> outcome" where
  "cancel_swap t s =
     ok (s\<lparr>queue := [], queueMutex := None,
           pcs := (pcs s)[t := Can_Swapped (queue s)],
           history := history s @ [Swapped (queue s)]\<rparr>)"

definition cancel_charge :: "nat \<Rightarrow> job list \<Rightarrow> state \<Rightarrow> outcome" where
  "cancel_charge t oldQueue s =
     (let sz = length oldQueue in
      if \<not> int sz \<le> INT_MAX then abort AssertFailed
      else if sz \<noteq> 0 then finalizeJobs t (int sz) (RetCancel oldQueue) s
      else ok (s\<lparr>pcs := (pcs s)[t := Idle], history := history s @ [Returned sz]\<rparr>))"

text \<open>\<open>waitAll\<close>, lines 68-76. \<open>wait(lock, pred)\<close> is \<open>while (!pred()) wait(lock)\<close>.\<close>

definition wait_block :: "nat \<Rightarrow> state \<Rightarrow> outcome" where
  "wait_block t s = ok (s\<lparr>jobsLeftMutex := None, pcs := (pcs s)[t := Wait_Blocked]\<rparr>)"

definition wait_return :: "nat \<Rightarrow> state \<Rightarrow> outcome" where
  "wait_return t s = ok (s\<lparr>jobsLeftMutex := None, pcs := (pcs s)[t := Idle]\<rparr>)"

definition wait_pred :: "nat \<Rightarrow> state \<Rightarrow> outcome" where
  "wait_pred t s = (if jobsLeft s = 0 then wait_return t s else wait_block t s)"

definition waitAll_check :: "nat \<Rightarrow> state \<Rightarrow> outcome" where
  "waitAll_check t s = (if jobsLeft s > 0 then wait_pred t s else wait_return t s)"

text \<open>\<open>joinAll\<close>, lines 134-153.\<close>

definition joinAll_flag :: "nat \<Rightarrow> state \<Rightarrow> outcome" where
  "joinAll_flag t s =
     (if bailout s
      then ok (s\<lparr>queueMutex := None, pcs := (pcs s)[t := Idle]\<rparr>)
      else ok (s\<lparr>bailout := True, queueMutex := None, pcs := (pcs s)[t := Join_Flagged]\<rparr>))"

definition joinAll_notify :: "nat \<Rightarrow> state \<Rightarrow> outcome" where
  "joinAll_notify t s = ok (s\<lparr>pcs := (map wake_worker (pcs s))[t := Join_Joining 0]\<rparr>)"

definition joinAll_join :: "nat \<Rightarrow> nat \<Rightarrow> state \<Rightarrow> outcome" where
  "joinAll_join t i s =
     (if i < threadCount s
      then (if pcs s ! i = W_Done
            then ok (s\<lparr>pcs := (pcs s)[t := Join_Joining (Suc i)]\<rparr>)
            else None)
      else ok (s\<lparr>pcs := (pcs s)[t := Idle]\<rparr>))"

text \<open>\<open>nextJob\<close>, lines 88-115.\<close>

definition worker_return :: "nat \<Rightarrow> state \<Rightarrow> outcome" where
  "worker_return t s = ok (s\<lparr>queueMutex := None, pcs := (pcs s)[t := W_Done]\<rparr>)"

definition worker_block :: "nat \<Rightarrow> state \<Rightarrow> outcome" where
  "worker_block t s = ok (s\<lparr>queueMutex := None, pcs := (pcs s)[t := W_Blocked]\<rparr>)"

text \<open>Lines 104-110: after the wait.\<close>

definition worker_take :: "nat \<Rightarrow> state \<Rightarrow> outcome" where
  "worker_take t s =
     (if bailout s then worker_return t s
      else (case queue s of
              [] \<Rightarrow> abort EmptyFront
            | j # q \<Rightarrow> ok (s\<lparr>queue := q, queueMutex := None,
                              pcs := (pcs s)[t := W_Job j],
                              history := history s @ [Took j]\<rparr>)))"

text \<open>Line 100: the predicate of the wait.\<close>

definition worker_pred :: "nat \<Rightarrow> state \<Rightarrow> outcome" where
  "worker_pred t s =
     (if length (queue s) > 0 \<or> bailout s then worker_take t s else worker_block t s)"

text \<open>Lines 96-102: the first check of \<open>bailout\<close>, then the wait.\<close>

definition worker_check :: "nat \<Rightarrow> state \<Rightarrow> outcome" where
  "worker_check t s = (if bailout s then worker_return t s else worker_pred t s)"

text \<open>Line 112: \<open>job()\<close>. An exception is not caught anywhere in \<open>nextJob\<close> or in the
  lambda of line 23, so it ends the process.\<close>

definition run_job :: "nat \<Rightarrow> job \<Rightarrow> state \<Rightarrow> outcome" where
  "run_job t j s =
     (if throws j then abort Terminate
      else ok (s\<lparr>pcs := (pcs s)[t := W_Ran], total_acc := total_acc s + summand j,
                 history := history s @ [Ran j]\<rparr>))"

text \<open>One step of thread \<open>t\<close> from its program counter.\<close>

fun go :: "nat \<Rightarrow> pc \<Rightarrow> state \<Rightarrow> outcome" where
  "go t Idle s = None"
| "go t (Enq_L1 j) s = enqueue_count t j s"
| "go t (Enq_Counted j) s = lock_queue t (Enq_L2 j) s"
| "go t (Enq_L2 j) s = enqueue_push t j s"
| "go t Enq_Pushed s =
     (if W_Blocked \<in> set (pcs s) then None else ok (s\<lparr>pcs := (pcs s)[t := Idle]\<rparr>))"
| "go t Can_L s = cancel_swap t s"
| "go t (Can_Swapped old) s = cancel_charge t old s"
| "go t (Fin_L cnt r) s = finalize_decrement t cnt r s"
| "go t (Fin_Dec remainingJobs r) s = finalize_notify t remainingJobs r s"
| "go t Wait_L s = waitAll_check t s"
| "go t Wait_Blocked s = None"
| "go t Wait_Woken s = lock_jobsLeft t Wait_Re s"
| "go t Wait_Re s = wait_pred t s"
| "go t Join_L s = joinAll_flag t s"
| "go t Join_Flagged s = joinAll_notify t s"
| "go t (Join_Joining i) s = joinAll_join t i s"
| "go t W_Top s = lock_queue t W_L s"
| "go t W_L s = worker_check t s"
| "go t W_Blocked s = None"
| "go t W_Woken s = lock_queue t W_Re s"
| "go t W_Re s = worker_pred t s"
| "go t (W_Job j) s = run_job t j s"
| "go t W_Ran s = finalizeJobs t 1 RetWorker s"
| "go t W_Done s = None"

fun enter :: "nat \<Rightarrow> call \<Rightarrow> state \<Rightarrow> outcome" where
  "enter t (Enqueue j) s = lock_jobsLeft t (Enq_L1 j) s"
| "enter t CancelPending s = lock_queue t Can_L s"
| "enter t WaitAll s = lock_jobsLeft t Wait_L s"
| "enter t JoinAll s = lock_queue t Join_L s"

fun step :: "event \<Rightarrow> state \<Rightarrow> outcome" where
  "step (Call t c) s =
     (if t < length (pcs s) \<and> pcs s ! t = Idle then enter t c s else None)"
| "step (Go t) s =
     (if t < length (pcs s) then go t (pcs s ! t) s else None)"
| "step (Signal t w) s =
     (if t < length (pcs s) \<and> w < length (pcs s) \<and>
         pcs s ! t = Enq_Pushed \<and> pcs s ! w = W_Blocked
      then ok (s\<lparr>pcs := (pcs s)[w := W_Woken, t := Idle]\<rparr>)
      else None)"
| "step (Spurious t) s =
     (if t < length (pcs s) \<and> pcs s ! t = W_Blocked
        then ok (s\<lparr>pcs := (pcs s)[t := W_Woken]\<rparr>)
      else if t < length (pcs s) \<and> pcs s ! t = Wait_Blocked
        then ok (s\<lparr>pcs := (pcs s)[t := Wait_Woken]\<rparr>)
      else None)"

fun run :: "event list \<Rightarrow> state \<Rightarrow> outcome" where
  "run [] s = ok s"
| "run (e # es) s =
     (case step e s of
        Some (Inr s') \<Rightarrow> run es s'
      | r \<Rightarrow> r)"

inductive reachable :: "state \<Rightarrow> state \<Rightarrow> bool" for s0 :: state where
  start: "reachable s0 s0"
| next_step: "reachable s0 s \<Longrightarrow> step e s = Some (Inr s') \<Longrightarrow> reachable s0 s'"

section \<open>Invariants\<close>

subsection \<open>Definitions\<close>

text \<open>The program counters before and after a thread takes \<open>queueMutex\<close>, and
  before and after it takes \<open>jobsLeftMutex\<close>.\<close>

inductive acq_queue :: "pc \<Rightarrow> pc \<Rightarrow> bool" where
  "acq_queue Idle Can_L"
| "acq_queue Idle Join_L"
| "acq_queue (Enq_Counted j) (Enq_L2 j)"
| "acq_queue W_Top W_L"
| "acq_queue W_Woken W_Re"

inductive acq_jobsLeft :: "pc \<Rightarrow> pc \<Rightarrow> bool" where
  "acq_jobsLeft Idle (Enq_L1 j)"
| "acq_jobsLeft Idle Wait_L"
| "old \<noteq> [] \<Longrightarrow> int (length old) \<le> INT_MAX \<Longrightarrow>
     acq_jobsLeft (Can_Swapped old) (Fin_L (int (length old)) (RetCancel old))"
| "acq_jobsLeft W_Ran (Fin_L 1 RetWorker)"
| "acq_jobsLeft Wait_Woken Wait_Re"

text \<open>\<open>owed p\<close>: what the thread at \<open>p\<close> has already added to \<open>jobsLeft\<close> for a job
  that is not in \<open>_queue\<close> yet, or has still to subtract from it for jobs that have
  left \<open>_queue\<close>.\<close>

fun owed :: "pc \<Rightarrow> int" where
  "owed (Enq_Counted j) = 1"
| "owed (Enq_L2 j) = 1"
| "owed (Can_Swapped old) = int (length old)"
| "owed (Fin_L cnt r) = cnt"
| "owed (W_Job j) = 1"
| "owed W_Ran = 1"
| "owed _ = 0"

fun pc_ok :: "pc \<Rightarrow> bool" where
  "pc_ok (Fin_L cnt r) = (0 < cnt \<and> (case r of RetWorker \<Rightarrow> cnt = 1 | RetCancel old \<Rightarrow> cnt = int (length old)))"
| "pc_ok (Fin_Dec n r) = (0 \<le> n)"
| "pc_ok _ = True"

definition counter_inv :: "state \<Rightarrow> bool" where
  "counter_inv s \<longleftrightarrow>
     jobsLeft s = int (length (queue s)) + sum_list (map owed (pcs s)) \<and>
     jobsLeft s \<le> INT_MAX \<and> list_all pc_ok (pcs s)"

text \<open>Which program counters hold which mutex; which belong to workers.\<close>

fun holdsQ :: "pc \<Rightarrow> bool" where
  "holdsQ (Enq_L2 j) = True"
| "holdsQ Can_L = True"
| "holdsQ Join_L = True"
| "holdsQ W_L = True"
| "holdsQ W_Re = True"
| "holdsQ _ = False"

fun holdsJ :: "pc \<Rightarrow> bool" where
  "holdsJ (Enq_L1 j) = True"
| "holdsJ (Fin_L cnt r) = True"
| "holdsJ Wait_L = True"
| "holdsJ Wait_Re = True"
| "holdsJ _ = False"

definition lock_inv :: "state \<Rightarrow> bool" where
  "lock_inv s \<longleftrightarrow>
     (\<forall>t. queueMutex s = Some t \<longrightarrow> t < length (pcs s) \<and> holdsQ (pcs s ! t)) \<and>
     (\<forall>t < length (pcs s). holdsQ (pcs s ! t) \<longrightarrow> queueMutex s = Some t) \<and>
     (\<forall>t. jobsLeftMutex s = Some t \<longrightarrow> t < length (pcs s) \<and> holdsJ (pcs s ! t)) \<and>
     (\<forall>t < length (pcs s). holdsJ (pcs s ! t) \<longrightarrow> jobsLeftMutex s = Some t)"

fun worker_pc :: "pc \<Rightarrow> bool" where
  "worker_pc W_Top = True"
| "worker_pc W_L = True"
| "worker_pc W_Blocked = True"
| "worker_pc W_Woken = True"
| "worker_pc W_Re = True"
| "worker_pc (W_Job j) = True"
| "worker_pc W_Ran = True"
| "worker_pc W_Done = True"
| "worker_pc (Fin_L cnt RetWorker) = True"
| "worker_pc (Fin_Dec n RetWorker) = True"
| "worker_pc _ = False"

definition kind_inv :: "state \<Rightarrow> bool" where
  "kind_inv s \<longleftrightarrow>
     threadCount s \<le> length (pcs s) \<and>
     (\<forall>t < length (pcs s). worker_pc (pcs s ! t) = (t < threadCount s))"

definition done_inv :: "state \<Rightarrow> bool" where
  "done_inv s \<longleftrightarrow> (W_Done \<in> set (pcs s) \<longrightarrow> bailout s)"

text \<open>Wake-ups are not lost: a notification is always on its way to a thread that
  is blocked although its predicate holds.\<close>

definition join_inv :: "state \<Rightarrow> bool" where
  "join_inv s \<longleftrightarrow> (bailout s \<and> W_Blocked \<in> set (pcs s) \<longrightarrow> Join_Flagged \<in> set (pcs s))"

fun notifier :: "pc \<Rightarrow> bool" where
  "notifier (Fin_Dec n r) = (n = 0)"
| "notifier _ = False"

definition wake_inv :: "state \<Rightarrow> bool" where
  "wake_inv s \<longleftrightarrow>
     (jobsLeft s = 0 \<and> Wait_Blocked \<in> set (pcs s) \<longrightarrow> (\<exists>p\<in>set (pcs s). notifier p))"

fun busy :: "pc \<Rightarrow> bool" where
  "busy Enq_Pushed = True"
| "busy W_Top = True"
| "busy W_L = True"
| "busy W_Woken = True"
| "busy W_Re = True"
| "busy (W_Job j) = True"
| "busy W_Ran = True"
| "busy (Fin_L cnt RetWorker) = True"
| "busy (Fin_Dec n RetWorker) = True"
| "busy _ = False"

definition live_inv :: "state \<Rightarrow> bool" where
  "live_inv s \<longleftrightarrow>
     (\<not> bailout s \<and> queue s \<noteq> [] \<and> W_Blocked \<in> set (pcs s) \<longrightarrow>
        (\<exists>p\<in>set (pcs s). busy p))"

text \<open>What the history and the state have to do with each other.\<close>

fun inflight :: "pc \<Rightarrow> job multiset" where
  "inflight (W_Job j) = {#j#}"
| "inflight _ = {#}"

definition fifo_inv :: "state \<Rightarrow> bool" where
  "fifo_inv s \<longleftrightarrow> pushed s = map fst (dequeued s) @ queue s"

definition exec_inv :: "state \<Rightarrow> bool" where
  "exec_inv s \<longleftrightarrow>
     mset (taken s) = mset (executed s) + sum_list (map inflight (pcs s))"

definition total_inv :: "state \<Rightarrow> bool" where
  "total_inv s \<longleftrightarrow> total_acc s = sum_list (map summand (executed s))"

fun pend_size :: "pc \<Rightarrow> nat" where
  "pend_size (Can_Swapped old) = length old"
| "pend_size (Fin_L cnt (RetCancel old)) = length old"
| "pend_size (Fin_Dec m (RetCancel old)) = length old"
| "pend_size _ = 0"

fun pend_one :: "pc \<Rightarrow> nat" where
  "pend_one (Can_Swapped old) = 1"
| "pend_one (Fin_L cnt (RetCancel old)) = 1"
| "pend_one (Fin_Dec m (RetCancel old)) = 1"
| "pend_one _ = 0"

fun swaps_of :: "hist \<Rightarrow> job list list" where
  "swaps_of (Swapped old) = [old]"
| "swaps_of _ = []"

definition swaps :: "state \<Rightarrow> job list list" where
  "swaps s = concat (map swaps_of (history s))"

definition ret_inv :: "state \<Rightarrow> bool" where
  "ret_inv s \<longleftrightarrow>
     sum_list (returned s) + sum_list (map pend_size (pcs s)) = length (drained s) \<and>
     length (returned s) + sum_list (map pend_one (pcs s)) = length (swaps s)"

text \<open>The history determines \<open>_queue\<close>: replaying the pushes, pops and swaps of the
  history on an empty queue gives the queue of the state.\<close>

fun replay_step :: "job list option \<Rightarrow> hist \<Rightarrow> job list option" where
  "replay_step None e = None"
| "replay_step (Some q) (Pushed j) = Some (q @ [j])"
| "replay_step (Some q) (Took j) =
     (case q of [] \<Rightarrow> None | x # q' \<Rightarrow> if x = j then Some q' else None)"
| "replay_step (Some q) (Swapped old) = (if q = old then Some [] else None)"
| "replay_step (Some q) (Ran j) = Some q"
| "replay_step (Some q) (Returned n) = Some q"

definition replay :: "hist list \<Rightarrow> job list option" where
  "replay h = foldl replay_step (Some []) h"

definition replay_inv :: "state \<Rightarrow> bool" where
  "replay_inv s \<longleftrightarrow> replay (history s) = Some (queue s)"

text \<open>The loop of \<open>joinAll\<close> at index \<open>i\<close> has joined the workers below \<open>i\<close>.\<close>

definition joining_inv :: "state \<Rightarrow> bool" where
  "joining_inv s \<longleftrightarrow>
     (\<forall>t < length (pcs s). \<forall>i. pcs s ! t = Join_Joining i \<longrightarrow>
        (\<forall>k < i. k < threadCount s \<longrightarrow> pcs s ! k = W_Done))"


definition pool_inv :: "state \<Rightarrow> bool" where
  "pool_inv s \<longleftrightarrow>
     counter_inv s \<and> lock_inv s \<and> kind_inv s \<and> done_inv s \<and> join_inv s \<and>
     wake_inv s \<and> live_inv s \<and> fifo_inv s \<and> exec_inv s \<and> total_inv s \<and>
     ret_inv s \<and> replay_inv s \<and> joining_inv s"

text \<open>Where an \<open>assert\<close> of the source fails: line 62 in \<open>cancelPending\<close>, lines 124
  and 129 in \<open>finalizeJobs\<close>. (The \<open>assert\<close> of line 119 holds at both calls of
  \<open>finalizeJobs\<close>: the argument is 1, or a size that is not 0.)\<close>

fun assert_fails :: "pc \<Rightarrow> state \<Rightarrow> bool" where
  "assert_fails (Can_Swapped old) s = (\<not> int (length old) \<le> INT_MAX)"
| "assert_fails (Fin_L cnt r) s = (\<not> jobsLeft s \<ge> cnt)"
| "assert_fails (Fin_Dec n r) s = (\<not> n \<ge> 0)"
| "assert_fails _ s = False"

text \<open>States of a pool without workers, used as examples: one client has submitted two
  jobs and is in \<open>cancelPending\<close>, about to subtract 2 from \<open>jobsLeft\<close>; the same
  with a counter that is too small; the state after the subtraction.\<close>

definition two_queued :: state where
  "two_queued =
     \<lparr> queue = [], jobsLeft = 2, bailout = False,
       queueMutex = None, jobsLeftMutex = Some 0,
       threadCount = 0, pcs = [Fin_L 2 (RetCancel [Job 1 5 False, Job 2 3 False])],
       total_acc = 0,
       history = [Pushed (Job 1 5 False), Pushed (Job 2 3 False),
                  Swapped [Job 1 5 False, Job 2 3 False]] \<rparr>"

definition two_broken :: state where
  "two_broken = two_queued\<lparr>jobsLeft := 1\<rparr>"

definition two_charged :: state where
  "two_charged =
     two_queued\<lparr>jobsLeft := 0, jobsLeftMutex := None,
       pcs := [Fin_Dec 0 (RetCancel [Job 1 5 False, Job 2 3 False])]\<rparr>"


definition one_taken :: state where
  "one_taken =
     \<lparr> queue = [], jobsLeft = 1, bailout = False,
       queueMutex = None, jobsLeftMutex = None, threadCount = 1,
       pcs = [W_Job (Job 7 5 False), Idle], total_acc = 0,
       history = [Pushed (Job 7 5 False), Took (Job 7 5 False)] \<rparr>"


definition two_cancelled :: state where
  "two_cancelled =
     \<lparr> queue = [], jobsLeft = 0, bailout = False,
       queueMutex = None, jobsLeftMutex = None, threadCount = 0, pcs = [Idle],
       total_acc = 0,
       history = [Pushed (Job 1 5 False), Pushed (Job 2 3 False),
                  Swapped [Job 1 5 False, Job 2 3 False], Returned 2] \<rparr>"

fun in_waitAll :: "pc \<Rightarrow> bool" where
  "in_waitAll Wait_L = True"
| "in_waitAll Wait_Blocked = True"
| "in_waitAll Wait_Woken = True"
| "in_waitAll Wait_Re = True"
| "in_waitAll _ = False"

definition waiter_blocked :: state where
  "waiter_blocked =
     \<lparr> queue = [], jobsLeft = 0, bailout = False,
       queueMutex = None, jobsLeftMutex = None, threadCount = 1,
       pcs = [Fin_Dec 0 RetWorker, Idle, Wait_Blocked], total_acc = 5,
       history = [Pushed (Job 7 5 False), Took (Job 7 5 False), Ran (Job 7 5 False)] \<rparr>"

text \<open>A pool with one worker that has popped a job whose call will throw.\<close>

definition one_failing :: state where
  "one_failing =
     \<lparr> queue = [], jobsLeft = 1, bailout = False,
       queueMutex = None, jobsLeftMutex = None, threadCount = 1,
       pcs = [W_Job (Job 7 5 True), Idle], total_acc = 0,
       history = [Pushed (Job 7 5 True), Took (Job 7 5 True)] \<rparr>"

text \<open>A state is at rest when no thread can take a step of its own and no \<open>notify_one\<close> can
  be delivered: only a new call of a client, or a spurious wake-up, leads out of it.\<close>

definition quiescent :: "state \<Rightarrow> bool" where
  "quiescent s \<longleftrightarrow>
     (\<forall>t < length (pcs s). step (Go t) s = None \<and>
        (\<forall>w < length (pcs s). step (Signal t w) s = None))"

text \<open>The events by which the threads that are inside the pool move on: the steps of the
  threads and the delivery of a \<open>notify_one\<close>. A call is a decision of a client, a
  spurious wake-up one of the library.\<close>

fun is_progress :: "event \<Rightarrow> bool" where
  "is_progress (Go t) = True"
| "is_progress (Signal t w) = True"
| "is_progress (Call t c) = False"
| "is_progress (Spurious t) = False"

text \<open>A bound on the number of steps the threads can still take without a new call: every
  program counter has a weight, \<open>N\<close> is the number of threads and \<open>T\<close> the number of
  workers; a queued job counts for the steps of the worker that will run it and for
  the wake-ups its completion may cause.\<close>

fun weight :: "nat \<Rightarrow> nat \<Rightarrow> pc \<Rightarrow> nat" where
  "weight N T Idle = 0"
| "weight N T (Enq_L1 j) = 2 * N + 12"
| "weight N T (Enq_Counted j) = 2 * N + 11"
| "weight N T (Enq_L2 j) = 2 * N + 10"
| "weight N T Enq_Pushed = 3"
| "weight N T Can_L = 2 * N + 6"
| "weight N T (Can_Swapped old) = 2 * N + 5"
| "weight N T (Fin_L cnt r) = 2 * N + 4"
| "weight N T (Fin_Dec k r) = 2 * N + 3"
| "weight N T Wait_L = 1"
| "weight N T Wait_Blocked = 0"
| "weight N T Wait_Woken = 2"
| "weight N T Wait_Re = 1"
| "weight N T Join_L = 2 * N + T + 3"
| "weight N T Join_Flagged = 2 * N + T + 2"
| "weight N T (Join_Joining i) = Suc (T - i)"
| "weight N T W_Top = 2"
| "weight N T W_L = 1"
| "weight N T W_Blocked = 0"
| "weight N T W_Woken = 2"
| "weight N T W_Re = 1"
| "weight N T (W_Job j) = 2 * N + 6"
| "weight N T W_Ran = 2 * N + 5"
| "weight N T W_Done = 0"

definition potential :: "state \<Rightarrow> nat" where
  "potential s =
     (2 * length (pcs s) + 6) * length (queue s) +
     sum_list (map (weight (length (pcs s)) (threadCount s)) (pcs s))"

text \<open>The program counters of \<open>joinAll\<close> after line 142: \<open>bailout\<close> has been set.\<close>

fun joiner :: "pc \<Rightarrow> bool" where
  "joiner Join_Flagged = True"
| "joiner (Join_Joining i) = True"
| "joiner _ = False"

definition flag_inv :: "state \<Rightarrow> bool" where
  "flag_inv s \<longleftrightarrow> ((\<exists>p\<in>set (pcs s). joiner p) \<longrightarrow> bailout s)"

text \<open>The program counters at which a thread does not move by itself: outside the pool,
  blocked on a condition variable, or ended.\<close>

fun resting :: "pc \<Rightarrow> bool" where
  "resting Idle = True"
| "resting Wait_Blocked = True"
| "resting W_Blocked = True"
| "resting W_Done = True"
| "resting _ = False"

text \<open>Example states for \<open>waitAll\<close>: a pool with one worker that waits for a job; a pool
  without workers in which one client has submitted a job and the other is blocked in
  \<open>waitAll\<close>.\<close>

definition worker_waiting :: state where
  "worker_waiting =
     \<lparr> queue = [], jobsLeft = 0, bailout = False,
       queueMutex = None, jobsLeftMutex = None, threadCount = 1,
       pcs = [W_Blocked, Idle], total_acc = 0, history = [] \<rparr>"

definition waiter_stuck :: state where
  "waiter_stuck =
     \<lparr> queue = [Job 7 5 False], jobsLeft = 1, bailout = False,
       queueMutex = None, jobsLeftMutex = None, threadCount = 0,
       pcs = [Idle, Wait_Blocked], total_acc = 0, history = [Pushed (Job 7 5 False)] \<rparr>"

text \<open>Example states for \<open>joinAll\<close>, in a pool with two workers and one client: the client
  has set \<open>bailout\<close> and woken both workers and is about to join the first; both
  workers have ended; \<open>joinAll\<close> has returned; and the state before the call, with both
  workers blocked.\<close>

definition two_joining :: state where
  "two_joining =
     \<lparr> queue = [], jobsLeft = 0, bailout = True,
       queueMutex = None, jobsLeftMutex = None, threadCount = 2,
       pcs = [W_Woken, W_Woken, Join_Joining 0], total_acc = 0, history = [] \<rparr>"

definition two_ended :: state where
  "two_ended = two_joining\<lparr>pcs := [W_Done, W_Done, Join_Joining 0]\<rparr>"

definition two_torn_down :: state where
  "two_torn_down = two_joining\<lparr>pcs := [W_Done, W_Done, Idle]\<rparr>"

definition two_waiting :: state where
  "two_waiting = two_joining\<lparr>bailout := False, pcs := [W_Blocked, W_Blocked, Idle]\<rparr>"

text \<open>Example states for \<open>enqueue\<close> during teardown, in a pool with two workers and two
  clients: one client has set \<open>bailout\<close> in \<open>joinAll\<close> and has not notified yet, one
  worker is blocked and the other is at the top of its loop; the second client has
  pushed a job; its \<open>notify_one\<close> has woken the blocked worker; both workers have ended
  and \<open>joinAll\<close> has returned, the job is still queued.\<close>

definition bail_flagged :: state where
  "bail_flagged =
     \<lparr> queue = [], jobsLeft = 0, bailout = True,
       queueMutex = None, jobsLeftMutex = None, threadCount = 2,
       pcs = [W_Blocked, W_Top, Join_Flagged, Idle], total_acc = 0, history = [] \<rparr>"

definition bail_pushed :: state where
  "bail_pushed =
     bail_flagged\<lparr>queue := [Job 7 5 False], jobsLeft := 1,
       pcs := [W_Blocked, W_Top, Join_Flagged, Enq_Pushed],
       history := [Pushed (Job 7 5 False)]\<rparr>"

definition bail_signalled :: state where
  "bail_signalled = bail_pushed\<lparr>pcs := [W_Woken, W_Top, Join_Flagged, Idle]\<rparr>"

definition bail_rest :: state where
  "bail_rest = bail_pushed\<lparr>pcs := [W_Done, W_Done, Idle, Idle]\<rparr>"



text \<open>The pool whose worker has popped a job that will throw, with its client blocked in
  \<open>waitAll\<close>.\<close>

definition failing_waiting :: state where
  "failing_waiting = one_failing\<lparr>pcs := [W_Job (Job 7 5 True), Wait_Blocked]\<rparr>"

text \<open>The pool with one worker and one client after the worker has run the client's job and
  waits again.\<close>

definition one_done :: state where
  "one_done =
     \<lparr> queue = [], jobsLeft = 0, bailout = False,
       queueMutex = None, jobsLeftMutex = None, threadCount = 1,
       pcs = [W_Blocked, Idle], total_acc = 5,
       history = [Pushed (Job 7 5 False), Took (Job 7 5 False), Ran (Job 7 5 False)] \<rparr>"





subsection \<open>Case analysis of a step\<close>

lemmas step_defs =
  lock_queue_def lock_jobsLeft_def finalizeJobs_def finalize_decrement_def
  finalize_notify_def enqueue_count_def enqueue_push_def cancel_swap_def cancel_charge_def
  wait_block_def wait_return_def wait_pred_def waitAll_check_def joinAll_flag_def
  joinAll_notify_def joinAll_join_def worker_return_def worker_block_def worker_take_def
  worker_pred_def worker_check_def run_job_def

lemma go_cases [consumes 2, case_names lockQ lockJ enq_count enq_push enq_quiet can_swap
    can_zero fin_dec fin_zero fin_pos wait_return wait_block join_already join_flag
    join_notify join_next join_return w_bail w_take w_block w_run]:
  assumes "go t (pcs s ! t) s = Some (Inr s')" and "t < length (pcs s)"
  obtains
    (lockQ) p' where "queueMutex s = None" "acq_queue (pcs s ! t) p'"
      "s' = s\<lparr>queueMutex := Some t, pcs := (pcs s)[t := p']\<rparr>"
  | (lockJ) p' where "jobsLeftMutex s = None" "acq_jobsLeft (pcs s ! t) p'"
      "s' = s\<lparr>jobsLeftMutex := Some t, pcs := (pcs s)[t := p']\<rparr>"
  | (enq_count) j where "pcs s ! t = Enq_L1 j" "jobsLeft s \<noteq> INT_MAX"
      "s' = s\<lparr>jobsLeft := jobsLeft s + 1, jobsLeftMutex := None,
                pcs := (pcs s)[t := Enq_Counted j]\<rparr>"
  | (enq_push) j where "pcs s ! t = Enq_L2 j"
      "s' = s\<lparr>queue := queue s @ [j], queueMutex := None,
                pcs := (pcs s)[t := Enq_Pushed], history := history s @ [Pushed j]\<rparr>"
  | (enq_quiet) "pcs s ! t = Enq_Pushed" "W_Blocked \<notin> set (pcs s)"
      "s' = s\<lparr>pcs := (pcs s)[t := Idle]\<rparr>"
  | (can_swap) "pcs s ! t = Can_L"
      "s' = s\<lparr>queue := [], queueMutex := None,
                pcs := (pcs s)[t := Can_Swapped (queue s)],
                history := history s @ [Swapped (queue s)]\<rparr>"
  | (can_zero) "pcs s ! t = Can_Swapped []"
      "s' = s\<lparr>pcs := (pcs s)[t := Idle], history := history s @ [Returned 0]\<rparr>"
  | (fin_dec) cnt r where "pcs s ! t = Fin_L cnt r" "cnt \<le> jobsLeft s"
      "s' = s\<lparr>jobsLeft := jobsLeft s - cnt, jobsLeftMutex := None,
                pcs := (pcs s)[t := Fin_Dec (jobsLeft s - cnt) r]\<rparr>"
  | (fin_zero) r where "pcs s ! t = Fin_Dec 0 r"
      "s' = return_to t r (s\<lparr>pcs := map wake_waiter (pcs s)\<rparr>)"
  | (fin_pos) n r where "pcs s ! t = Fin_Dec n r" "0 < n"
      "s' = return_to t r s"
  | (wait_return) "pcs s ! t = Wait_L \<and> \<not> 0 < jobsLeft s \<or> pcs s ! t = Wait_Re \<and> jobsLeft s = 0"
      "s' = s\<lparr>jobsLeftMutex := None, pcs := (pcs s)[t := Idle]\<rparr>"
  | (wait_block) "pcs s ! t = Wait_L \<and> 0 < jobsLeft s \<or> pcs s ! t = Wait_Re \<and> jobsLeft s \<noteq> 0"
      "s' = s\<lparr>jobsLeftMutex := None, pcs := (pcs s)[t := Wait_Blocked]\<rparr>"
  | (join_already) "pcs s ! t = Join_L" "bailout s"
      "s' = s\<lparr>queueMutex := None, pcs := (pcs s)[t := Idle]\<rparr>"
  | (join_flag) "pcs s ! t = Join_L" "\<not> bailout s"
      "s' = s\<lparr>bailout := True, queueMutex := None, pcs := (pcs s)[t := Join_Flagged]\<rparr>"
  | (join_notify) "pcs s ! t = Join_Flagged"
      "s' = s\<lparr>pcs := (map wake_worker (pcs s))[t := Join_Joining 0]\<rparr>"
  | (join_next) i where "pcs s ! t = Join_Joining i" "i < threadCount s" "pcs s ! i = W_Done"
      "s' = s\<lparr>pcs := (pcs s)[t := Join_Joining (Suc i)]\<rparr>"
  | (join_return) i where "pcs s ! t = Join_Joining i" "\<not> i < threadCount s"
      "s' = s\<lparr>pcs := (pcs s)[t := Idle]\<rparr>"
  | (w_bail) "pcs s ! t = W_L \<or> pcs s ! t = W_Re" "bailout s"
      "s' = s\<lparr>queueMutex := None, pcs := (pcs s)[t := W_Done]\<rparr>"
  | (w_take) j q where "pcs s ! t = W_L \<or> pcs s ! t = W_Re" "\<not> bailout s" "queue s = j # q"
      "s' = s\<lparr>queue := q, queueMutex := None, pcs := (pcs s)[t := W_Job j],
                history := history s @ [Took j]\<rparr>"
  | (w_block) "pcs s ! t = W_L \<or> pcs s ! t = W_Re" "\<not> bailout s" "queue s = []"
      "s' = s\<lparr>queueMutex := None, pcs := (pcs s)[t := W_Blocked]\<rparr>"
  | (w_run) j where "pcs s ! t = W_Job j" "\<not> throws j"
      "s' = s\<lparr>pcs := (pcs s)[t := W_Ran], total_acc := total_acc s + summand j,
                history := history s @ [Ran j]\<rparr>"
proof (cases "pcs s ! t")
  case Idle with assms show ?thesis by simp
next
  case (Enq_L1 j) with assms enq_count show ?thesis
    by (simp add: step_defs split: if_splits)
next
  case (Enq_Counted j) with assms lockQ [of "Enq_L2 j"] show ?thesis
    by (simp add: step_defs acq_queue.intros split: if_splits)
next
  case (Enq_L2 j) with assms enq_push show ?thesis
    by (simp add: step_defs split: if_splits)
next
  case Enq_Pushed with assms enq_quiet show ?thesis
    by (simp add: step_defs split: if_splits)
next
  case Can_L with assms can_swap show ?thesis
    by (simp add: step_defs split: if_splits)
next
  case (Can_Swapped old) with assms can_zero lockJ [of "Fin_L (int (length old)) (RetCancel old)"] show ?thesis
    by (auto simp add: step_defs Let_def acq_jobsLeft.intros split: if_splits)
next
  case (Fin_L cnt r) with assms fin_dec show ?thesis
    by (simp add: step_defs split: if_splits)
next
  case (Fin_Dec n r) with assms fin_zero fin_pos [of n r] show ?thesis
    by (auto simp add: step_defs split: if_splits)
next
  case Wait_L with assms wait_return wait_block show ?thesis
    by (auto simp add: step_defs split: if_splits)
next
  case Wait_Blocked with assms show ?thesis by simp
next
  case Wait_Woken with assms lockJ [of Wait_Re] show ?thesis
    by (simp add: step_defs acq_jobsLeft.intros split: if_splits)
next
  case Wait_Re with assms wait_return wait_block show ?thesis
    by (auto simp add: step_defs split: if_splits)
next
  case Join_L with assms join_already join_flag show ?thesis
    by (auto simp add: step_defs split: if_splits)
next
  case Join_Flagged with assms join_notify show ?thesis
    by (simp add: step_defs split: if_splits)
next
  case (Join_Joining i) with assms join_next join_return show ?thesis
    by (auto simp add: step_defs split: if_splits)
next
  case W_Top with assms lockQ [of W_L] show ?thesis
    by (simp add: step_defs acq_queue.intros split: if_splits)
next
  case W_L with assms w_bail w_take w_block show ?thesis
    by (auto simp add: step_defs split: if_splits list.splits)
next
  case W_Blocked with assms show ?thesis by simp
next
  case W_Woken with assms lockQ [of W_Re] show ?thesis
    by (simp add: step_defs acq_queue.intros split: if_splits)
next
  case W_Re with assms w_bail w_take w_block show ?thesis
    by (auto simp add: step_defs split: if_splits list.splits)
next
  case (W_Job j) with assms w_run show ?thesis
    by (simp add: step_defs split: if_splits)
next
  case W_Ran with assms lockJ [of "Fin_L 1 RetWorker"] show ?thesis
    by (simp add: step_defs acq_jobsLeft.intros split: if_splits)
next
  case W_Done with assms show ?thesis by simp
qed


lemma step_cases [consumes 1, case_names lockQ lockJ enq_count enq_push enq_quiet enq_signal
    can_swap can_zero fin_dec fin_zero fin_pos wait_return wait_block join_already join_flag
    join_notify join_next join_return w_bail w_take w_block w_run spurious_worker
    spurious_waiter]:
  assumes "step e s = Some (Inr s')"
  obtains
    (lockQ) t p' where "t < length (pcs s)" "queueMutex s = None" "acq_queue (pcs s ! t) p'"
      "s' = s\<lparr>queueMutex := Some t, pcs := (pcs s)[t := p']\<rparr>"
  | (lockJ) t p' where "t < length (pcs s)" "jobsLeftMutex s = None"
      "acq_jobsLeft (pcs s ! t) p'"
      "s' = s\<lparr>jobsLeftMutex := Some t, pcs := (pcs s)[t := p']\<rparr>"
  | (enq_count) t j where "t < length (pcs s)" "pcs s ! t = Enq_L1 j" "jobsLeft s \<noteq> INT_MAX"
      "s' = s\<lparr>jobsLeft := jobsLeft s + 1, jobsLeftMutex := None,
                pcs := (pcs s)[t := Enq_Counted j]\<rparr>"
  | (enq_push) t j where "t < length (pcs s)" "pcs s ! t = Enq_L2 j"
      "s' = s\<lparr>queue := queue s @ [j], queueMutex := None,
                pcs := (pcs s)[t := Enq_Pushed], history := history s @ [Pushed j]\<rparr>"
  | (enq_quiet) t where "t < length (pcs s)" "pcs s ! t = Enq_Pushed"
      "W_Blocked \<notin> set (pcs s)"
      "s' = s\<lparr>pcs := (pcs s)[t := Idle]\<rparr>"
  | (enq_signal) t w where "t < length (pcs s)" "w < length (pcs s)"
      "pcs s ! t = Enq_Pushed" "pcs s ! w = W_Blocked"
      "s' = s\<lparr>pcs := (pcs s)[w := W_Woken, t := Idle]\<rparr>"
  | (can_swap) t where "t < length (pcs s)" "pcs s ! t = Can_L"
      "s' = s\<lparr>queue := [], queueMutex := None,
                pcs := (pcs s)[t := Can_Swapped (queue s)],
                history := history s @ [Swapped (queue s)]\<rparr>"
  | (can_zero) t where "t < length (pcs s)" "pcs s ! t = Can_Swapped []"
      "s' = s\<lparr>pcs := (pcs s)[t := Idle], history := history s @ [Returned 0]\<rparr>"
  | (fin_dec) t cnt r where "t < length (pcs s)" "pcs s ! t = Fin_L cnt r" "cnt \<le> jobsLeft s"
      "s' = s\<lparr>jobsLeft := jobsLeft s - cnt, jobsLeftMutex := None,
                pcs := (pcs s)[t := Fin_Dec (jobsLeft s - cnt) r]\<rparr>"
  | (fin_zero) t r where "t < length (pcs s)" "pcs s ! t = Fin_Dec 0 r"
      "s' = return_to t r (s\<lparr>pcs := map wake_waiter (pcs s)\<rparr>)"
  | (fin_pos) t n r where "t < length (pcs s)" "pcs s ! t = Fin_Dec n r" "0 < n"
      "s' = return_to t r s"
  | (wait_return) t where "t < length (pcs s)"
      "pcs s ! t = Wait_L \<and> \<not> 0 < jobsLeft s \<or> pcs s ! t = Wait_Re \<and> jobsLeft s = 0"
      "s' = s\<lparr>jobsLeftMutex := None, pcs := (pcs s)[t := Idle]\<rparr>"
  | (wait_block) t where "t < length (pcs s)"
      "pcs s ! t = Wait_L \<and> 0 < jobsLeft s \<or> pcs s ! t = Wait_Re \<and> jobsLeft s \<noteq> 0"
      "s' = s\<lparr>jobsLeftMutex := None, pcs := (pcs s)[t := Wait_Blocked]\<rparr>"
  | (join_already) t where "t < length (pcs s)" "pcs s ! t = Join_L" "bailout s"
      "s' = s\<lparr>queueMutex := None, pcs := (pcs s)[t := Idle]\<rparr>"
  | (join_flag) t where "t < length (pcs s)" "pcs s ! t = Join_L" "\<not> bailout s"
      "s' = s\<lparr>bailout := True, queueMutex := None, pcs := (pcs s)[t := Join_Flagged]\<rparr>"
  | (join_notify) t where "t < length (pcs s)" "pcs s ! t = Join_Flagged"
      "s' = s\<lparr>pcs := (map wake_worker (pcs s))[t := Join_Joining 0]\<rparr>"
  | (join_next) t i where "t < length (pcs s)" "pcs s ! t = Join_Joining i"
      "i < threadCount s" "pcs s ! i = W_Done"
      "s' = s\<lparr>pcs := (pcs s)[t := Join_Joining (Suc i)]\<rparr>"
  | (join_return) t i where "t < length (pcs s)" "pcs s ! t = Join_Joining i"
      "\<not> i < threadCount s"
      "s' = s\<lparr>pcs := (pcs s)[t := Idle]\<rparr>"
  | (w_bail) t where "t < length (pcs s)" "pcs s ! t = W_L \<or> pcs s ! t = W_Re" "bailout s"
      "s' = s\<lparr>queueMutex := None, pcs := (pcs s)[t := W_Done]\<rparr>"
  | (w_take) t j q where "t < length (pcs s)" "pcs s ! t = W_L \<or> pcs s ! t = W_Re"
      "\<not> bailout s" "queue s = j # q"
      "s' = s\<lparr>queue := q, queueMutex := None, pcs := (pcs s)[t := W_Job j],
                history := history s @ [Took j]\<rparr>"
  | (w_block) t where "t < length (pcs s)" "pcs s ! t = W_L \<or> pcs s ! t = W_Re"
      "\<not> bailout s" "queue s = []"
      "s' = s\<lparr>queueMutex := None, pcs := (pcs s)[t := W_Blocked]\<rparr>"
  | (w_run) t j where "t < length (pcs s)" "pcs s ! t = W_Job j" "\<not> throws j"
      "s' = s\<lparr>pcs := (pcs s)[t := W_Ran], total_acc := total_acc s + summand j,
                history := history s @ [Ran j]\<rparr>"
  | (spurious_worker) t where "t < length (pcs s)" "pcs s ! t = W_Blocked"
      "s' = s\<lparr>pcs := (pcs s)[t := W_Woken]\<rparr>"
  | (spurious_waiter) t where "t < length (pcs s)" "pcs s ! t = Wait_Blocked"
      "s' = s\<lparr>pcs := (pcs s)[t := Wait_Woken]\<rparr>"
proof (cases e)
  case (Call t c)
  with assms have t: "t < length (pcs s)" and idle: "pcs s ! t = Idle"
    and en: "enter t c s = Some (Inr s')"
    by (simp_all split: if_splits)
  show ?thesis
  proof (cases c)
    case (Enqueue j)
    with en idle t lockJ [of t "Enq_L1 j"] show ?thesis
      by (simp add: lock_jobsLeft_def acq_jobsLeft.intros split: if_splits)
  next
    case CancelPending
    with en idle t lockQ [of t Can_L] show ?thesis
      by (simp add: lock_queue_def acq_queue.intros split: if_splits)
  next
    case WaitAll
    with en idle t lockJ [of t Wait_L] show ?thesis
      by (simp add: lock_jobsLeft_def acq_jobsLeft.intros split: if_splits)
  next
    case JoinAll
    with en idle t lockQ [of t Join_L] show ?thesis
      by (simp add: lock_queue_def acq_queue.intros split: if_splits)
  qed
next
  case (Go t)
  with assms have t: "t < length (pcs s)" and g: "go t (pcs s ! t) s = Some (Inr s')"
    by (simp_all split: if_splits)
  from g t show ?thesis
  proof (cases rule: go_cases)
    case lockQ with t show ?thesis using that(1) by blast
  next
    case lockJ with t show ?thesis using that(2) by blast
  next
    case enq_count with t show ?thesis using that(3) by blast
  next
    case enq_push with t show ?thesis using that(4) by blast
  next
    case enq_quiet with t show ?thesis using that(5) by blast
  next
    case can_swap with t show ?thesis using that(7) by blast
  next
    case can_zero with t show ?thesis using that(8) by blast
  next
    case fin_dec with t show ?thesis using that(9) by blast
  next
    case fin_zero with t show ?thesis using that(10) by blast
  next
    case fin_pos with t show ?thesis using that(11) by blast
  next
    case wait_return with t show ?thesis using that(12) by blast
  next
    case wait_block with t show ?thesis using that(13) by blast
  next
    case join_already with t show ?thesis using that(14) by blast
  next
    case join_flag with t show ?thesis using that(15) by blast
  next
    case join_notify with t show ?thesis using that(16) by blast
  next
    case join_next with t show ?thesis using that(17) by blast
  next
    case join_return with t show ?thesis using that(18) by blast
  next
    case w_bail with t show ?thesis using that(19) by blast
  next
    case w_take with t show ?thesis using that(20) by blast
  next
    case w_block with t show ?thesis using that(21) by blast
  next
    case w_run with t show ?thesis using that(22) by blast
  qed
next
  case (Signal t w)
  with assms enq_signal [of t w] show ?thesis
    by (simp split: if_splits)
next
  case (Spurious t)
  with assms spurious_worker [of t] spurious_waiter [of t] show ?thesis
    by (auto split: if_splits)
qed

subsection \<open>The counter\<close>

lemma sum_list_map_update:
  fixes f :: "'a \<Rightarrow> int"
  shows "t < length xs \<Longrightarrow>
    sum_list (map f (xs[t := y])) = sum_list (map f xs) - f (xs ! t) + f y"
  by (induction xs arbitrary: t) (auto split: nat.splits)

lemma list_all_update: "list_all P xs \<Longrightarrow> P y \<Longrightarrow> list_all P (xs[t := y])"
  by (induction xs arbitrary: t) (auto split: nat.splits)

lemma list_all_nth: "list_all P xs \<Longrightarrow> t < length xs \<Longrightarrow> P (xs ! t)"
  by (simp add: list_all_length)

lemma owed_nonneg: "pc_ok p \<Longrightarrow> 0 \<le> owed p"
  by (cases p) auto

lemma owed_sum_nonneg: "list_all pc_ok ps \<Longrightarrow> 0 \<le> sum_list (map owed ps)"
  by (induction ps) (auto dest: owed_nonneg)

lemma owed_le_sum:
  "list_all pc_ok ps \<Longrightarrow> t < length ps \<Longrightarrow> owed (ps ! t) \<le> sum_list (map owed ps)"
proof (induction ps arbitrary: t)
  case Nil then show ?case by simp
next
  case (Cons p ps)
  then show ?case
    using owed_nonneg [of p] owed_sum_nonneg [of ps]
    by (cases t) (auto, force)
qed

lemma owed_wake_waiter [simp]: "owed (wake_waiter p) = owed p"
  by (cases p) auto

lemma owed_wake_worker [simp]: "owed (wake_worker p) = owed p"
  by (cases p) auto

lemma pc_ok_wake_waiter [simp]: "pc_ok (wake_waiter p) = pc_ok p"
  by (cases p) auto

lemma pc_ok_wake_worker [simp]: "pc_ok (wake_worker p) = pc_ok p"
  by (cases p) auto

lemma owed_acq_queue: "acq_queue p p' \<Longrightarrow> owed p' = owed p \<and> pc_ok p'"
  by (auto elim: acq_queue.cases)

lemma owed_acq_jobsLeft: "acq_jobsLeft p p' \<Longrightarrow> owed p' = owed p \<and> pc_ok p'"
  by (auto elim!: acq_jobsLeft.cases)

lemma counter_inv_step:
  assumes "counter_inv s" and "step e s = Some (Inr s')"
  shows "counter_inv s'"
  using assms(2)
proof (cases rule: step_cases)
  case (lockQ t p')
  with assms(1) owed_acq_queue [OF lockQ(3)] show ?thesis
    by (simp add: counter_inv_def sum_list_map_update list_all_update)
next
  case (lockJ t p')
  with assms(1) owed_acq_jobsLeft [OF lockJ(3)] show ?thesis
    by (simp add: counter_inv_def sum_list_map_update list_all_update)
next
  case (enq_count t j)
  with assms(1) show ?thesis
    by (simp add: counter_inv_def sum_list_map_update list_all_update)
next
  case (enq_push t j)
  with assms(1) show ?thesis
    by (simp add: counter_inv_def sum_list_map_update list_all_update)
next
  case (enq_quiet t)
  with assms(1) show ?thesis
    by (simp add: counter_inv_def sum_list_map_update list_all_update)
next
  case (enq_signal t w)
  with assms(1) show ?thesis
    by (simp add: counter_inv_def sum_list_map_update list_all_update nth_list_update)
next
  case (can_swap t)
  with assms(1) show ?thesis
    by (simp add: counter_inv_def sum_list_map_update list_all_update)
next
  case (can_zero t)
  with assms(1) show ?thesis
    by (simp add: counter_inv_def sum_list_map_update list_all_update)
next
  case (fin_dec t cnt r)
  from assms(1) have ok: "list_all pc_ok (pcs s)"
    by (simp add: counter_inv_def)
  with fin_dec have "0 < cnt" "owed (pcs s ! t) \<le> sum_list (map owed (pcs s))"
    using list_all_nth [of pc_ok "pcs s" t] owed_le_sum [of "pcs s" t] by auto
  with fin_dec assms(1) show ?thesis
    by (simp add: counter_inv_def sum_list_map_update list_all_update)
next
  case (fin_zero t r)
  with assms(1) show ?thesis
    by (cases r) (simp_all add: counter_inv_def return_to_def sum_list_map_update
        list_all_update list.pred_map comp_def)
next
  case (fin_pos t n r)
  with assms(1) show ?thesis
    by (cases r) (simp_all add: counter_inv_def return_to_def sum_list_map_update
        list_all_update)
next
  case (wait_return t)
  with assms(1) show ?thesis
    by (auto simp add: counter_inv_def sum_list_map_update list_all_update)
next
  case (wait_block t)
  with assms(1) show ?thesis
    by (auto simp add: counter_inv_def sum_list_map_update list_all_update)
next
  case (join_already t)
  with assms(1) show ?thesis
    by (simp add: counter_inv_def sum_list_map_update list_all_update)
next
  case (join_flag t)
  with assms(1) show ?thesis
    by (simp add: counter_inv_def sum_list_map_update list_all_update)
next
  case (join_notify t)
  with assms(1) show ?thesis
    by (simp add: counter_inv_def sum_list_map_update list_all_update list.pred_map comp_def)
next
  case (join_next t i)
  with assms(1) show ?thesis
    by (simp add: counter_inv_def sum_list_map_update list_all_update)
next
  case (join_return t i)
  with assms(1) show ?thesis
    by (simp add: counter_inv_def sum_list_map_update list_all_update)
next
  case (w_bail t)
  with assms(1) show ?thesis
    by (auto simp add: counter_inv_def sum_list_map_update list_all_update)
next
  case (w_take t j q)
  with assms(1) show ?thesis
    by (auto simp add: counter_inv_def sum_list_map_update list_all_update)
next
  case (w_block t)
  with assms(1) show ?thesis
    by (auto simp add: counter_inv_def sum_list_map_update list_all_update)
next
  case (w_run t j)
  with assms(1) show ?thesis
    by (simp add: counter_inv_def sum_list_map_update list_all_update)
next
  case (spurious_worker t)
  with assms(1) show ?thesis
    by (simp add: counter_inv_def sum_list_map_update list_all_update)
next
  case (spurious_waiter t)
  with assms(1) show ?thesis
    by (simp add: counter_inv_def sum_list_map_update list_all_update)
qed

subsection \<open>The mutexes and the kinds of thread\<close>

lemma acq_queue_holds:
  "acq_queue p p' \<Longrightarrow> \<not> holdsQ p \<and> holdsQ p' \<and> \<not> holdsJ p \<and> \<not> holdsJ p'"
  by (auto elim: acq_queue.cases)

lemma acq_jobsLeft_holds:
  "acq_jobsLeft p p' \<Longrightarrow> \<not> holdsQ p \<and> \<not> holdsQ p' \<and> \<not> holdsJ p \<and> holdsJ p'"
  by (auto elim: acq_jobsLeft.cases)

lemma holds_wake [simp]:
  "holdsQ (wake_waiter p) = holdsQ p" "holdsJ (wake_waiter p) = holdsJ p"
  "holdsQ (wake_worker p) = holdsQ p" "holdsJ (wake_worker p) = holdsJ p"
  by (cases p; simp)+

lemma lock_inv_update:
  assumes inv: "lock_inv s" and t: "t < length (pcs s)"
    and len: "length (pcs s') = length (pcs s)"
    and others: "\<And>u. u < length (pcs s) \<Longrightarrow> u \<noteq> t \<Longrightarrow>
      holdsQ (pcs s' ! u) = holdsQ (pcs s ! u) \<and> holdsJ (pcs s' ! u) = holdsJ (pcs s ! u)"
    and q: "queueMutex s' =
      (if holdsQ (pcs s' ! t) then Some t
       else if holdsQ (pcs s ! t) then None else queueMutex s)"
    and j: "jobsLeftMutex s' =
      (if holdsJ (pcs s' ! t) then Some t
       else if holdsJ (pcs s ! t) then None else jobsLeftMutex s)"
    and qfree: "holdsQ (pcs s' ! t) \<Longrightarrow> holdsQ (pcs s ! t) \<or> queueMutex s = None"
    and jfree: "holdsJ (pcs s' ! t) \<Longrightarrow> holdsJ (pcs s ! t) \<or> jobsLeftMutex s = None"
  shows "lock_inv s'"
proof -
  from inv have q1: "\<And>u. queueMutex s = Some u \<Longrightarrow> u < length (pcs s) \<and> holdsQ (pcs s ! u)"
    and q2: "\<And>u. u < length (pcs s) \<Longrightarrow> holdsQ (pcs s ! u) \<Longrightarrow> queueMutex s = Some u"
    and j1: "\<And>u. jobsLeftMutex s = Some u \<Longrightarrow> u < length (pcs s) \<and> holdsJ (pcs s ! u)"
    and j2: "\<And>u. u < length (pcs s) \<Longrightarrow> holdsJ (pcs s ! u) \<Longrightarrow> jobsLeftMutex s = Some u"
    unfolding lock_inv_def by blast+
  have a: "u < length (pcs s') \<and> holdsQ (pcs s' ! u)" if "queueMutex s' = Some u" for u
  proof (cases "holdsQ (pcs s' ! t)")
    case True
    with q that have "u = t" by simp
    with True t len show ?thesis by simp
  next
    case False
    with q that have old: "queueMutex s = Some u" and nt: "\<not> holdsQ (pcs s ! t)"
      by (simp_all split: if_splits)
    from q1 [OF old] nt have "u \<noteq> t" by auto
    with q1 [OF old] others [of u] len show ?thesis by simp
  qed
  have b: "queueMutex s' = Some u" if "u < length (pcs s')" "holdsQ (pcs s' ! u)" for u
  proof (cases "u = t")
    case True
    with q that show ?thesis by simp
  next
    case False
    with that others [of u] len have h: "holdsQ (pcs s ! u)" and u: "u < length (pcs s)"
      by simp_all
    from q2 [OF u h] have old: "queueMutex s = Some u" .
    have "\<not> holdsQ (pcs s ! t)"
      using q2 [OF t] old False by auto
    moreover have "\<not> holdsQ (pcs s' ! t)"
      using qfree calculation old by auto
    ultimately show ?thesis using q old by simp
  qed
  have c: "u < length (pcs s') \<and> holdsJ (pcs s' ! u)" if "jobsLeftMutex s' = Some u" for u
  proof (cases "holdsJ (pcs s' ! t)")
    case True
    with j that have "u = t" by simp
    with True t len show ?thesis by simp
  next
    case False
    with j that have old: "jobsLeftMutex s = Some u" and nt: "\<not> holdsJ (pcs s ! t)"
      by (simp_all split: if_splits)
    from j1 [OF old] nt have "u \<noteq> t" by auto
    with j1 [OF old] others [of u] len show ?thesis by simp
  qed
  have d: "jobsLeftMutex s' = Some u" if "u < length (pcs s')" "holdsJ (pcs s' ! u)" for u
  proof (cases "u = t")
    case True
    with j that show ?thesis by simp
  next
    case False
    with that others [of u] len have h: "holdsJ (pcs s ! u)" and u: "u < length (pcs s)"
      by simp_all
    from j2 [OF u h] have old: "jobsLeftMutex s = Some u" .
    have "\<not> holdsJ (pcs s ! t)"
      using j2 [OF t] old False by auto
    moreover have "\<not> holdsJ (pcs s' ! t)"
      using jfree calculation old by auto
    ultimately show ?thesis using j old by simp
  qed
  from a b c d show ?thesis
    unfolding lock_inv_def by blast
qed

lemma lock_inv_held:
  assumes "lock_inv s" "t < length (pcs s)"
  shows "holdsQ (pcs s ! t) \<Longrightarrow> queueMutex s = Some t"
    and "holdsJ (pcs s ! t) \<Longrightarrow> jobsLeftMutex s = Some t"
  using assms unfolding lock_inv_def by blast+

lemma lock_inv_step:
  assumes "lock_inv s" and "step e s = Some (Inr s')"
  shows "lock_inv s'"
  using assms(2)
proof (cases rule: step_cases)
  case (lockQ t p')
  with acq_queue_holds [OF lockQ(3)] show ?thesis
    by (intro lock_inv_update [OF assms(1) lockQ(1)]) simp_all
next
  case (lockJ t p')
  with acq_jobsLeft_holds [OF lockJ(3)] show ?thesis
    by (intro lock_inv_update [OF assms(1) lockJ(1)]) simp_all
next
  case (enq_count t j)
  with lock_inv_held [OF assms(1) enq_count(1)] show ?thesis
    by (intro lock_inv_update [OF assms(1) enq_count(1)]) simp_all
next
  case (enq_push t j)
  with lock_inv_held [OF assms(1) enq_push(1)] show ?thesis
    by (intro lock_inv_update [OF assms(1) enq_push(1)]) simp_all
next
  case (enq_quiet t)
  with lock_inv_held [OF assms(1) enq_quiet(1)] show ?thesis
    by (intro lock_inv_update [OF assms(1) enq_quiet(1)]) simp_all
next
  case (enq_signal t w)
  with lock_inv_held [OF assms(1) enq_signal(1)] show ?thesis
    by (intro lock_inv_update [OF assms(1) enq_signal(1)]) (auto simp add: nth_list_update)
next
  case (can_swap t)
  with lock_inv_held [OF assms(1) can_swap(1)] show ?thesis
    by (intro lock_inv_update [OF assms(1) can_swap(1)]) simp_all
next
  case (can_zero t)
  with lock_inv_held [OF assms(1) can_zero(1)] show ?thesis
    by (intro lock_inv_update [OF assms(1) can_zero(1)]) simp_all
next
  case (fin_dec t cnt r)
  with lock_inv_held [OF assms(1) fin_dec(1)] show ?thesis
    by (intro lock_inv_update [OF assms(1) fin_dec(1)]) simp_all
next
  case (fin_zero t r)
  with lock_inv_held [OF assms(1) fin_zero(1)] show ?thesis
    by (intro lock_inv_update [OF assms(1) fin_zero(1)]; cases r)
      (simp_all add: return_to_def)
next
  case (fin_pos t n r)
  with lock_inv_held [OF assms(1) fin_pos(1)] show ?thesis
    by (intro lock_inv_update [OF assms(1) fin_pos(1)]; cases r)
      (simp_all add: return_to_def)
next
  case (wait_return t)
  with lock_inv_held [OF assms(1) wait_return(1)] show ?thesis
    by (intro lock_inv_update [OF assms(1) wait_return(1)]) auto
next
  case (wait_block t)
  with lock_inv_held [OF assms(1) wait_block(1)] show ?thesis
    by (intro lock_inv_update [OF assms(1) wait_block(1)]) auto
next
  case (join_already t)
  with lock_inv_held [OF assms(1) join_already(1)] show ?thesis
    by (intro lock_inv_update [OF assms(1) join_already(1)]) simp_all
next
  case (join_flag t)
  with lock_inv_held [OF assms(1) join_flag(1)] show ?thesis
    by (intro lock_inv_update [OF assms(1) join_flag(1)]) simp_all
next
  case (join_notify t)
  with lock_inv_held [OF assms(1) join_notify(1)] show ?thesis
    by (intro lock_inv_update [OF assms(1) join_notify(1)]) simp_all
next
  case (join_next t i)
  with lock_inv_held [OF assms(1) join_next(1)] show ?thesis
    by (intro lock_inv_update [OF assms(1) join_next(1)]) simp_all
next
  case (join_return t i)
  with lock_inv_held [OF assms(1) join_return(1)] show ?thesis
    by (intro lock_inv_update [OF assms(1) join_return(1)]) simp_all
next
  case (w_bail t)
  with lock_inv_held [OF assms(1) w_bail(1)] show ?thesis
    by (intro lock_inv_update [OF assms(1) w_bail(1)]) auto
next
  case (w_take t j q)
  with lock_inv_held [OF assms(1) w_take(1)] show ?thesis
    by (intro lock_inv_update [OF assms(1) w_take(1)]) auto
next
  case (w_block t)
  with lock_inv_held [OF assms(1) w_block(1)] show ?thesis
    by (intro lock_inv_update [OF assms(1) w_block(1)]) auto
next
  case (w_run t j)
  with lock_inv_held [OF assms(1) w_run(1)] show ?thesis
    by (intro lock_inv_update [OF assms(1) w_run(1)]) simp_all
next
  case (spurious_worker t)
  with lock_inv_held [OF assms(1) spurious_worker(1)] show ?thesis
    by (intro lock_inv_update [OF assms(1) spurious_worker(1)]) simp_all
next
  case (spurious_waiter t)
  with lock_inv_held [OF assms(1) spurious_waiter(1)] show ?thesis
    by (intro lock_inv_update [OF assms(1) spurious_waiter(1)]) simp_all
qed

lemma worker_pc_wake [simp]:
  "worker_pc (wake_waiter p) = worker_pc p" "worker_pc (wake_worker p) = worker_pc p"
  by (cases p; simp)+

lemma acq_queue_worker: "acq_queue p p' \<Longrightarrow> worker_pc p' = worker_pc p"
  by (auto elim: acq_queue.cases)

lemma acq_jobsLeft_worker: "acq_jobsLeft p p' \<Longrightarrow> worker_pc p' = worker_pc p"
  by (auto elim: acq_jobsLeft.cases)

lemma kind_inv_step:
  assumes "kind_inv s" and "step e s = Some (Inr s')"
  shows "kind_inv s'"
  using assms(2)
proof (cases rule: step_cases)
  case (lockQ t p')
  with assms(1) acq_queue_worker [OF lockQ(3)] show ?thesis
    by (auto simp add: kind_inv_def nth_list_update)
next
  case (lockJ t p')
  with assms(1) acq_jobsLeft_worker [OF lockJ(3)] show ?thesis
    by (auto simp add: kind_inv_def nth_list_update)
next
  case (fin_dec t cnt r)
  with assms(1) show ?thesis
    by (cases r) (auto simp add: kind_inv_def nth_list_update)
next
  case (fin_zero t r)
  with assms(1) show ?thesis
    by (cases r) (auto simp add: kind_inv_def return_to_def nth_list_update)
next
  case (fin_pos t n r)
  with assms(1) show ?thesis
    by (cases r) (auto simp add: kind_inv_def return_to_def nth_list_update)
qed (use assms(1) in \<open>auto simp add: kind_inv_def nth_list_update\<close>)

lemma in_set_updateD: "x \<in> set (xs[t := y]) \<Longrightarrow> x = y \<or> x \<in> set xs"
  using set_update_subset_insert [of xs t y] by auto

lemma in_set_updateI: "x \<in> set xs \<Longrightarrow> x \<noteq> xs ! t \<Longrightarrow> x \<in> set (xs[t := y])"
  by (metis in_set_conv_nth length_list_update nth_list_update_neq)

lemma in_set_update_self: "t < length xs \<Longrightarrow> y \<in> set (xs[t := y])"
  by (simp add: set_update_memI)

lemma done_wake_waiter: "W_Done \<in> wake_waiter ` A \<Longrightarrow> W_Done \<in> A"
proof -
  assume "W_Done \<in> wake_waiter ` A"
  then obtain x where "x \<in> A" "wake_waiter x = W_Done" by auto
  then show ?thesis by (cases x) auto
qed

lemma done_wake_worker: "W_Done \<in> wake_worker ` A \<Longrightarrow> W_Done \<in> A"
proof -
  assume "W_Done \<in> wake_worker ` A"
  then obtain x where "x \<in> A" "wake_worker x = W_Done" by auto
  then show ?thesis by (cases x) auto
qed

lemma done_inv_step:
  assumes "done_inv s" and "step e s = Some (Inr s')"
  shows "done_inv s'"
  using assms(2)
proof (cases rule: step_cases)
  case (lockQ t p')
  with assms(1) show ?thesis
    by (auto simp add: done_inv_def dest!: in_set_updateD elim: acq_queue.cases)
next
  case (lockJ t p')
  with assms(1) show ?thesis
    by (auto simp add: done_inv_def dest!: in_set_updateD elim: acq_jobsLeft.cases)
next
  case (fin_zero t r)
  with assms(1) show ?thesis
    by (cases r) (auto simp add: done_inv_def return_to_def dest!: in_set_updateD done_wake_waiter)
next
  case (fin_pos t n r)
  with assms(1) show ?thesis
    by (cases r) (auto simp add: done_inv_def return_to_def dest!: in_set_updateD)
qed (use assms(1) in \<open>auto simp add: done_inv_def dest!: in_set_updateD done_wake_worker\<close>)

subsection \<open>Notifications\<close>

lemma wake_waiter_eq: "wake_waiter x = (if x = Wait_Blocked then Wait_Woken else x)"
  by (cases x) simp_all

lemma wake_worker_eq: "wake_worker x = (if x = W_Blocked then W_Woken else x)"
  by (cases x) simp_all

lemma mem_wake_waiter:
  "p \<noteq> Wait_Blocked \<Longrightarrow> p \<noteq> Wait_Woken \<Longrightarrow>
     (p \<in> wake_waiter ` A) = (p \<in> A)"
  by (auto simp add: wake_waiter_eq image_iff)

lemma mem_wake_worker:
  "p \<noteq> W_Blocked \<Longrightarrow> p \<noteq> W_Woken \<Longrightarrow>
     (p \<in> wake_worker ` A) = (p \<in> A)"
  by (auto simp add: wake_worker_eq image_iff)

lemma no_blocked_waiter [simp]: "Wait_Blocked \<notin> wake_waiter ` A"
  by (auto simp add: wake_waiter_eq image_iff)

lemma no_blocked_worker [simp]: "W_Blocked \<notin> wake_worker ` A"
  by (auto simp add: wake_worker_eq image_iff)

lemma bex_update:
  assumes "\<exists>p\<in>set xs. P p" and "P y \<or> \<not> P (xs ! t)"
  shows "\<exists>p\<in>set (xs[t := y]). P p"
proof (cases "t < length xs")
  case False
  then have "xs[t := y] = xs" by (simp add: not_less list_update_beyond)
  with assms(1) show ?thesis by simp
next
  case True
  from assms(1) obtain p where p: "p \<in> set xs" "P p" by blast
  show ?thesis
  proof (cases "P y")
    case True
    with \<open>t < length xs\<close> in_set_update_self [of t xs y] show ?thesis by blast
  next
    case False
    with assms(2) p have "p \<noteq> xs ! t" by auto
    with p in_set_updateI [of p xs t y] show ?thesis by blast
  qed
qed

lemma bex_update_self: "t < length xs \<Longrightarrow> P y \<Longrightarrow> \<exists>p\<in>set (xs[t := y]). P p"
  using in_set_update_self [of t xs y] by blast

lemma bex_map:
  assumes "\<exists>p\<in>set xs. P p" and "\<And>p. P p \<Longrightarrow> P (f p)"
  shows "\<exists>p\<in>set (map f xs). P p"
  using assms by auto

lemma sum_list_map_update_add:
  fixes f :: "'a \<Rightarrow> 'b::comm_monoid_add"
  shows "t < length xs \<Longrightarrow>
    sum_list (map f (xs[t := y])) + f (xs ! t) = sum_list (map f xs) + f y"
proof (induction xs arbitrary: t)
  case Nil then show ?case by simp
next
  case (Cons x xs)
  show ?case
  proof (cases t)
    case 0 then show ?thesis by (simp add: ac_simps)
  next
    case (Suc k)
    with Cons.prems have "k < length xs" by simp
    from Cons.IH [OF this] Suc show ?thesis
      by (simp add: add.assoc)
  qed
qed

lemma sum_list_map_update_same:
  fixes f :: "'a \<Rightarrow> 'b::cancel_comm_monoid_add"
  assumes "t < length xs" "f y = f (xs ! t)"
  shows "sum_list (map f (xs[t := y])) = sum_list (map f xs)"
  using sum_list_map_update_add [OF assms(1), of f y] assms(2) by simp

lemma join_inv_step:
  assumes "join_inv s" and "step e s = Some (Inr s')"
  shows "join_inv s'"
  using assms(2)
proof (cases rule: step_cases)
  case (lockQ t p')
  with assms(1) show ?thesis
    by (auto simp add: join_inv_def dest!: in_set_updateD intro!: in_set_updateI
        elim: acq_queue.cases)
next
  case (lockJ t p')
  with assms(1) show ?thesis
    by (auto simp add: join_inv_def dest!: in_set_updateD intro!: in_set_updateI
        elim: acq_jobsLeft.cases)
next
  case (enq_signal t w)
  then have "w \<noteq> t" by auto
  with enq_signal assms(1) show ?thesis
    by (auto simp add: join_inv_def nth_list_update dest!: in_set_updateD
        intro!: in_set_updateI)
next
  case (fin_zero t r)
  with assms(1) show ?thesis
    by (cases r) (auto simp add: join_inv_def return_to_def mem_wake_waiter
        dest!: in_set_updateD intro!: in_set_updateI)
next
  case (fin_pos t n r)
  with assms(1) show ?thesis
    by (cases r) (auto simp add: join_inv_def return_to_def
        dest!: in_set_updateD intro!: in_set_updateI)
next
  case (join_flag t)
  then show ?thesis
    by (simp add: join_inv_def in_set_update_self)
next
  case (join_notify t)
  then show ?thesis
    by (auto simp add: join_inv_def dest!: in_set_updateD)
qed (use assms(1) in \<open>auto simp add: join_inv_def dest!: in_set_updateD intro!: in_set_updateI\<close>)

lemma notifier_wake [simp]:
  "notifier (wake_waiter p) = notifier p" "notifier (wake_worker p) = notifier p"
  by (cases p; simp)+

lemma acq_queue_notifier: "acq_queue p p' \<Longrightarrow> \<not> notifier p \<and> p' \<noteq> Wait_Blocked"
  by (auto elim: acq_queue.cases)

lemma acq_jobsLeft_notifier: "acq_jobsLeft p p' \<Longrightarrow> \<not> notifier p \<and> p' \<noteq> Wait_Blocked"
  by (auto elim: acq_jobsLeft.cases)

lemma counter_inv_nonneg: "counter_inv s \<Longrightarrow> 0 \<le> jobsLeft s"
  using owed_sum_nonneg [of "pcs s"] by (simp add: counter_inv_def)

lemma wake_inv_step:
  assumes "wake_inv s" and cnt: "counter_inv s" and "step e s = Some (Inr s')"
  shows "wake_inv s'"
  using assms(3)
proof (cases rule: step_cases)
  case (lockQ t p')
  with assms(1) acq_queue_notifier [OF lockQ(3)] show ?thesis
    by (auto simp add: wake_inv_def dest!: in_set_updateD intro!: bex_update)
next
  case (lockJ t p')
  with assms(1) acq_jobsLeft_notifier [OF lockJ(3)] show ?thesis
    by (auto simp add: wake_inv_def dest!: in_set_updateD intro!: bex_update)
next
  case (enq_count t j)
  with counter_inv_nonneg [OF cnt] show ?thesis
    by (simp add: wake_inv_def)
next
  case (enq_signal t w)
  then have "w \<noteq> t" by auto
  with enq_signal assms(1) show ?thesis
    by (auto simp add: wake_inv_def nth_list_update dest!: in_set_updateD intro!: bex_update)
next
  case (fin_dec t cnt r)
  then show ?thesis
    by (auto simp add: wake_inv_def intro!: bex_update_self)
next
  case (fin_zero t r)
  then show ?thesis
    by (cases r) (auto simp add: wake_inv_def return_to_def dest!: in_set_updateD)
next
  case (fin_pos t n r)
  with assms(1) show ?thesis
    by (cases r) (auto simp add: wake_inv_def return_to_def dest!: in_set_updateD
        intro!: bex_update)
next
  case (wait_block t)
  then show ?thesis
    by (auto simp add: wake_inv_def)
next
  case (join_notify t)
  with assms(1) show ?thesis
    by (auto simp add: wake_inv_def mem_wake_worker dest!: in_set_updateD
        intro!: bex_update bex_map)
qed (use assms(1) in \<open>auto simp add: wake_inv_def dest!: in_set_updateD intro!: bex_update\<close>)

lemma busy_wake [simp]:
  "busy (wake_waiter p) = busy p"
  by (cases p rule: busy.cases) simp_all

lemma acq_queue_busy: "acq_queue p p' \<Longrightarrow> busy p' = busy p \<and> p' \<noteq> W_Blocked"
  by (auto elim: acq_queue.cases)

lemma acq_jobsLeft_busy: "acq_jobsLeft p p' \<Longrightarrow> busy p' = busy p \<and> p' \<noteq> W_Blocked"
  by (auto elim: acq_jobsLeft.cases)

lemma live_inv_step:
  assumes "live_inv s" and "step e s = Some (Inr s')"
  shows "live_inv s'"
  using assms(2)
proof (cases rule: step_cases)
  case (lockQ t p')
  with assms(1) acq_queue_busy [OF lockQ(3)] show ?thesis
    by (auto simp add: live_inv_def dest!: in_set_updateD intro!: bex_update)
next
  case (lockJ t p')
  with assms(1) acq_jobsLeft_busy [OF lockJ(3)] show ?thesis
    by (auto simp add: live_inv_def dest!: in_set_updateD intro!: bex_update)
next
  case (enq_push t j)
  then show ?thesis
    by (auto simp add: live_inv_def intro!: bex_update_self)
next
  case (enq_quiet t)
  then show ?thesis
    by (auto simp add: live_inv_def dest!: in_set_updateD)
next
  case (enq_signal t w)
  then have "W_Woken \<in> set ((pcs s)[w := W_Woken, t := Idle])"
    by (intro in_set_updateI in_set_update_self) (auto simp add: nth_list_update)
  then have "\<exists>p\<in>set ((pcs s)[w := W_Woken, t := Idle]). busy p"
    by (rule bexI [rotated]) simp
  with enq_signal show ?thesis
    by (simp add: live_inv_def)
next
  case (fin_dec t cnt r)
  with assms(1) show ?thesis
    by (cases r) (auto simp add: live_inv_def dest!: in_set_updateD intro!: bex_update)
next
  case (fin_zero t r)
  with assms(1) show ?thesis
    by (cases r) (auto simp add: live_inv_def return_to_def mem_wake_waiter
        dest!: in_set_updateD intro!: bex_update bex_map)
next
  case (fin_pos t n r)
  with assms(1) show ?thesis
    by (cases r) (auto simp add: live_inv_def return_to_def
        dest!: in_set_updateD intro!: bex_update)
next
  case (join_notify t)
  then show ?thesis
    by (auto simp add: live_inv_def dest!: in_set_updateD)
next
  case (w_take t j q)
  then show ?thesis
    by (auto simp add: live_inv_def intro!: bex_update_self)
next
  case (spurious_worker t)
  then show ?thesis
    by (auto simp add: live_inv_def intro!: bex_update_self)
qed (use assms(1) in \<open>auto simp add: live_inv_def dest!: in_set_updateD intro!: bex_update\<close>)

subsection \<open>The history\<close>

lemmas hist_defs = pushed_def dequeued_def taken_def drained_def executed_def returned_def
  swaps_def

lemma fifo_inv_step:
  assumes "fifo_inv s" and "step e s = Some (Inr s')"
  shows "fifo_inv s'"
  using assms(2)
proof (cases rule: step_cases)
  case (fin_zero t r)
  with assms(1) show ?thesis
    by (cases r) (simp_all add: fifo_inv_def return_to_def hist_defs)
next
  case (fin_pos t n r)
  with assms(1) show ?thesis
    by (cases r) (simp_all add: fifo_inv_def return_to_def hist_defs)
qed (use assms(1) in \<open>simp_all add: fifo_inv_def hist_defs comp_def\<close>)

lemma total_inv_step:
  assumes "total_inv s" and "step e s = Some (Inr s')"
  shows "total_inv s'"
  using assms(2)
proof (cases rule: step_cases)
  case (fin_zero t r)
  with assms(1) show ?thesis
    by (cases r) (simp_all add: total_inv_def return_to_def hist_defs)
next
  case (fin_pos t n r)
  with assms(1) show ?thesis
    by (cases r) (simp_all add: total_inv_def return_to_def hist_defs)
qed (use assms(1) in \<open>simp_all add: total_inv_def hist_defs\<close>)

lemma inflight_wake [simp]:
  "inflight (wake_waiter p) = inflight p" "inflight (wake_worker p) = inflight p"
  by (cases p; simp)+

lemma acq_queue_inflight: "acq_queue p p' \<Longrightarrow> inflight p' = inflight p"
  by (auto elim: acq_queue.cases)

lemma acq_jobsLeft_inflight: "acq_jobsLeft p p' \<Longrightarrow> inflight p' = inflight p"
  by (auto elim: acq_jobsLeft.cases)

lemma inflight_update_same:
  "t < length xs \<Longrightarrow> inflight y = inflight (xs ! t) \<Longrightarrow>
     sum_list (map inflight (xs[t := y])) = sum_list (map inflight xs)"
  by (rule sum_list_map_update_same)

lemma inflight_update_take:
  assumes "t < length xs" "inflight (xs ! t) = {#}"
  shows "sum_list (map inflight (xs[t := W_Job j])) = sum_list (map inflight xs) + {#j#}"
  using sum_list_map_update_add [OF assms(1), of inflight "W_Job j"] assms(2) by simp

lemma inflight_update_run:
  assumes "t < length xs" "xs ! t = W_Job j"
  shows "sum_list (map inflight xs) = sum_list (map inflight (xs[t := W_Ran])) + {#j#}"
  using sum_list_map_update_add [OF assms(1), of inflight W_Ran] assms(2) by simp

lemma exec_inv_step:
  assumes "exec_inv s" and "step e s = Some (Inr s')"
  shows "exec_inv s'"
  using assms(2)
proof (cases rule: step_cases)
  case (lockQ t p')
  with assms(1) acq_queue_inflight [OF lockQ(3)] show ?thesis
    by (simp add: exec_inv_def hist_defs inflight_update_same)
next
  case (lockJ t p')
  with assms(1) acq_jobsLeft_inflight [OF lockJ(3)] show ?thesis
    by (simp add: exec_inv_def hist_defs inflight_update_same)
next
  case (enq_signal t w)
  then have "w \<noteq> t" by auto
  with enq_signal assms(1) show ?thesis
    by (simp add: exec_inv_def hist_defs inflight_update_same)
next
  case (fin_zero t r)
  with assms(1) show ?thesis
    by (cases r) (simp_all add: exec_inv_def return_to_def hist_defs inflight_update_same
        comp_def)
next
  case (fin_pos t n r)
  with assms(1) show ?thesis
    by (cases r) (simp_all add: exec_inv_def return_to_def hist_defs inflight_update_same)
next
  case (wait_return t)
  with assms(1) show ?thesis
    by (auto simp add: exec_inv_def hist_defs inflight_update_same)
next
  case (wait_block t)
  with assms(1) show ?thesis
    by (auto simp add: exec_inv_def hist_defs inflight_update_same)
next
  case (join_notify t)
  with assms(1) show ?thesis
    by (simp add: exec_inv_def hist_defs inflight_update_same comp_def)
next
  case (w_bail t)
  with assms(1) show ?thesis
    by (auto simp add: exec_inv_def hist_defs inflight_update_same)
next
  case (w_take t j q)
  then have "inflight (pcs s ! t) = {#}" by auto
  with w_take assms(1) show ?thesis
    by (simp add: exec_inv_def hist_defs inflight_update_take)
next
  case (w_block t)
  with assms(1) show ?thesis
    by (auto simp add: exec_inv_def hist_defs inflight_update_same)
next
  case (w_run t j)
  with assms(1) inflight_update_run [OF w_run(1,2)] show ?thesis
    by (simp add: exec_inv_def hist_defs)
qed (use assms(1) in \<open>simp_all add: exec_inv_def hist_defs inflight_update_same\<close>)

lemma pend_wake [simp]:
  "pend_size (wake_waiter p) = pend_size p" "pend_size (wake_worker p) = pend_size p"
  "pend_one (wake_waiter p) = pend_one p" "pend_one (wake_worker p) = pend_one p"
  by (cases p rule: pend_size.cases; simp)+

lemma acq_queue_pend:
  "acq_queue p p' \<Longrightarrow> pend_size p' = pend_size p \<and> pend_one p' = pend_one p"
  by (auto elim: acq_queue.cases)

lemma acq_jobsLeft_pend:
  "acq_jobsLeft p p' \<Longrightarrow> pend_size p' = pend_size p \<and> pend_one p' = pend_one p"
  by (auto elim: acq_jobsLeft.cases)

lemma nat_update_same:
  fixes f :: "'a \<Rightarrow> nat"
  shows "t < length xs \<Longrightarrow> f y = f (xs ! t) \<Longrightarrow>
     sum_list (map f (xs[t := y])) = sum_list (map f xs)"
  by (rule sum_list_map_update_same)

lemma ret_inv_return:
  assumes inv: "ret_inv s" and t: "t < length (pcs s)"
    and pc: "pend_size (pcs s ! t) = n" "pend_one (pcs s ! t) = 1"
  shows "ret_inv (s\<lparr>pcs := (pcs s)[t := Idle], history := history s @ [Returned n]\<rparr>)"
proof -
  from sum_list_map_update_add [OF t, of pend_size Idle] pc
  have a: "sum_list (map pend_size ((pcs s)[t := Idle])) + n = sum_list (map pend_size (pcs s))"
    by simp
  from sum_list_map_update_add [OF t, of pend_one Idle] pc
  have b: "sum_list (map pend_one ((pcs s)[t := Idle])) + 1 = sum_list (map pend_one (pcs s))"
    by simp
  from inv a b show ?thesis
    by (simp add: ret_inv_def hist_defs)
qed

lemma ret_inv_pcs_map:
  assumes "ret_inv s" "\<And>p. pend_size (f p) = pend_size p" "\<And>p. pend_one (f p) = pend_one p"
  shows "ret_inv (s\<lparr>pcs := map f (pcs s)\<rparr>)"
  using assms by (simp add: ret_inv_def hist_defs comp_def)

lemma ret_inv_step:
  assumes "ret_inv s" and "step e s = Some (Inr s')"
  shows "ret_inv s'"
  using assms(2)
proof (cases rule: step_cases)
  case (lockQ t p')
  with assms(1) acq_queue_pend [OF lockQ(3)] show ?thesis
    by (simp add: ret_inv_def hist_defs nat_update_same)
next
  case (lockJ t p')
  with assms(1) acq_jobsLeft_pend [OF lockJ(3)] show ?thesis
    by (simp add: ret_inv_def hist_defs nat_update_same)
next
  case (enq_signal t w)
  then have "w \<noteq> t" by auto
  with enq_signal assms(1) show ?thesis
    by (simp add: ret_inv_def hist_defs nat_update_same)
next
  case (can_swap t)
  from sum_list_map_update_add [OF can_swap(1), of pend_size "Can_Swapped (queue s)"] can_swap(2)
  have a: "sum_list (map pend_size ((pcs s)[t := Can_Swapped (queue s)])) =
      sum_list (map pend_size (pcs s)) + length (queue s)"
    by simp
  from sum_list_map_update_add [OF can_swap(1), of pend_one "Can_Swapped (queue s)"] can_swap(2)
  have b: "sum_list (map pend_one ((pcs s)[t := Can_Swapped (queue s)])) =
      sum_list (map pend_one (pcs s)) + 1"
    by simp
  from assms(1) a b can_swap show ?thesis
    by (simp add: ret_inv_def hist_defs)
next
  case (can_zero t)
  with ret_inv_return [OF assms(1) can_zero(1), of 0] show ?thesis
    by simp
next
  case (fin_dec t cnt r)
  with assms(1) show ?thesis
    by (cases r) (simp_all add: ret_inv_def hist_defs nat_update_same)
next
  case (fin_zero t r)
  let ?s = "s\<lparr>pcs := map wake_waiter (pcs s)\<rparr>"
  have inv: "ret_inv ?s"
    using assms(1) by (rule ret_inv_pcs_map) simp_all
  show ?thesis
  proof (cases r)
    case RetWorker
    with fin_zero inv show ?thesis
      by (simp add: ret_inv_def return_to_def hist_defs nat_update_same)
  next
    case (RetCancel old)
    with fin_zero ret_inv_return [OF inv, of t "length old"] show ?thesis
      by (simp add: return_to_def)
  qed
next
  case (fin_pos t n r)
  show ?thesis
  proof (cases r)
    case RetWorker
    with fin_pos assms(1) show ?thesis
      by (simp add: ret_inv_def return_to_def hist_defs nat_update_same)
  next
    case (RetCancel old)
    with fin_pos ret_inv_return [OF assms(1), of t "length old"] show ?thesis
      by (simp add: return_to_def)
  qed
next
  case (wait_return t)
  with assms(1) show ?thesis
    by (auto simp add: ret_inv_def hist_defs nat_update_same)
next
  case (wait_block t)
  with assms(1) show ?thesis
    by (auto simp add: ret_inv_def hist_defs nat_update_same)
next
  case (join_notify t)
  with assms(1) show ?thesis
    by (simp add: ret_inv_def hist_defs nat_update_same comp_def)
next
  case (w_bail t)
  with assms(1) show ?thesis
    by (auto simp add: ret_inv_def hist_defs nat_update_same)
next
  case (w_take t j q)
  with assms(1) show ?thesis
    by (auto simp add: ret_inv_def hist_defs nat_update_same)
next
  case (w_block t)
  with assms(1) show ?thesis
    by (auto simp add: ret_inv_def hist_defs nat_update_same)
qed (use assms(1) in \<open>simp_all add: ret_inv_def hist_defs nat_update_same\<close>)

subsection \<open>The replay of the history, the joined workers\<close>

lemma replay_inv_step:
  assumes "replay_inv s" and "step e s = Some (Inr s')"
  shows "replay_inv s'"
  using assms(2)
proof (cases rule: step_cases)
  case (fin_zero t r)
  with assms(1) show ?thesis
    by (cases r) (simp_all add: replay_inv_def replay_def return_to_def)
next
  case (fin_pos t n r)
  with assms(1) show ?thesis
    by (cases r) (simp_all add: replay_inv_def replay_def return_to_def)
qed (use assms(1) in \<open>simp_all add: replay_inv_def replay_def\<close>)

lemma joining_inv_update:
  assumes inv: "joining_inv s"
    and len: "length (pcs s') = length (pcs s)" and tc: "threadCount s' = threadCount s"
    and tcl: "threadCount s \<le> length (pcs s)"
    and keep: "\<And>k. k < length (pcs s) \<Longrightarrow> pcs s ! k = W_Done \<Longrightarrow> pcs s' ! k = W_Done"
    and new: "\<And>u i. u < length (pcs s) \<Longrightarrow> pcs s' ! u = Join_Joining i \<Longrightarrow>
        pcs s ! u = Join_Joining i \<or> i = 0 \<or>
        (\<exists>i'. i = Suc i' \<and> pcs s ! u = Join_Joining i' \<and>
           (i' < threadCount s \<longrightarrow> pcs s ! i' = W_Done))"
  shows "joining_inv s'"
  unfolding joining_inv_def
proof (intro allI impI)
  fix u i k
  assume u: "u < length (pcs s')" and pc: "pcs s' ! u = Join_Joining i"
    and k: "k < i" "k < threadCount s'"
  from u len have u': "u < length (pcs s)" by simp
  from k tc tcl have kl: "k < length (pcs s)" by simp
  from new [OF u' pc] have "pcs s ! k = W_Done"
  proof (elim disjE exE conjE)
    assume "pcs s ! u = Join_Joining i"
    with inv u' k tc show ?thesis by (auto simp add: joining_inv_def)
  next
    assume "i = 0" with k show ?thesis by simp
  next
    fix i' assume i': "i = Suc i'" "pcs s ! u = Join_Joining i'"
      "i' < threadCount s \<longrightarrow> pcs s ! i' = W_Done"
    show ?thesis
    proof (cases "k = i'")
      case True with i' k tc show ?thesis by simp
    next
      case False
      with i' k have "k < i'" by simp
      with inv u' i' k tc show ?thesis by (auto simp add: joining_inv_def)
    qed
  qed
  with keep [OF kl] show "pcs s' ! k = W_Done" by simp
qed

lemma acq_queue_not_done: "acq_queue p p' \<Longrightarrow> p \<noteq> W_Done \<and> (\<forall>i. p' \<noteq> Join_Joining i)"
  by (auto elim: acq_queue.cases)

lemma acq_jobsLeft_not_done: "acq_jobsLeft p p' \<Longrightarrow> p \<noteq> W_Done \<and> (\<forall>i. p' \<noteq> Join_Joining i)"
  by (auto elim: acq_jobsLeft.cases)

lemma wake_waiter_joining: "wake_waiter p = Join_Joining i \<Longrightarrow> p = Join_Joining i"
  by (cases p) simp_all

lemma wake_worker_joining: "wake_worker p = Join_Joining i \<Longrightarrow> p = Join_Joining i"
  by (cases p) simp_all

lemma wake_done [simp]: "wake_waiter W_Done = W_Done" "wake_worker W_Done = W_Done"
  by simp_all

lemma joining_inv_step:
  assumes "joining_inv s" and tcl: "threadCount s \<le> length (pcs s)"
    and "step e s = Some (Inr s')"
  shows "joining_inv s'"
  using assms(3)
proof (cases rule: step_cases)
  case (lockQ t p')
  with acq_queue_not_done [OF lockQ(3)] show ?thesis
    by (intro joining_inv_update [OF assms(1) _ _ tcl]) (auto simp add: nth_list_update split: if_splits)
next
  case (lockJ t p')
  with acq_jobsLeft_not_done [OF lockJ(3)] show ?thesis
    by (intro joining_inv_update [OF assms(1) _ _ tcl]) (auto simp add: nth_list_update split: if_splits)
next
  case (fin_zero t r)
  then show ?thesis
    by (intro joining_inv_update [OF assms(1) _ _ tcl]; cases r)
      (auto simp add: return_to_def nth_list_update dest: wake_waiter_joining split: if_splits)
next
  case (fin_pos t n r)
  then show ?thesis
    by (intro joining_inv_update [OF assms(1) _ _ tcl]; cases r)
      (auto simp add: return_to_def nth_list_update split: if_splits)
next
  case (join_notify t)
  then show ?thesis
    by (intro joining_inv_update [OF assms(1) _ _ tcl])
      (auto simp add: nth_list_update dest: wake_worker_joining split: if_splits)
qed (intro joining_inv_update [OF assms(1) _ _ tcl];
     auto simp add: nth_list_update split: if_splits)+

subsection \<open>All invariants hold in every reachable state\<close>

lemma sum_list_replicate_zero [simp]:
  "sum_list (replicate n (0::'a::monoid_add)) = 0"
  by (induction n) simp_all

lemma set_pcs_ConcurrentQueue:
  "set (pcs (ConcurrentQueue n m)) \<subseteq> {W_Top, Idle}"
  by (auto simp add: ConcurrentQueue_def)

lemma pcs_ConcurrentQueue_nth:
  "t < length (pcs (ConcurrentQueue n m)) \<Longrightarrow>
     pcs (ConcurrentQueue n m) ! t = W_Top \<or> pcs (ConcurrentQueue n m) ! t = Idle"
  using set_pcs_ConcurrentQueue [of n m] nth_mem [of t "pcs (ConcurrentQueue n m)"]
  by blast

lemma counter_inv_init: "counter_inv (ConcurrentQueue n m)"
proof -
  have "list_all pc_ok (pcs (ConcurrentQueue n m))"
    using set_pcs_ConcurrentQueue [of n m] by (auto simp add: list_all_iff)
  then show ?thesis
    by (simp add: counter_inv_def INT_MAX_def) (simp add: ConcurrentQueue_def)
qed

lemma lock_inv_init: "lock_inv (ConcurrentQueue n m)"
proof -
  have "\<not> holdsQ (pcs (ConcurrentQueue n m) ! t) \<and> \<not> holdsJ (pcs (ConcurrentQueue n m) ! t)"
    if "t < length (pcs (ConcurrentQueue n m))" for t
    using pcs_ConcurrentQueue_nth [OF that] by auto
  moreover have "queueMutex (ConcurrentQueue n m) = None"
    "jobsLeftMutex (ConcurrentQueue n m) = None"
    by (simp_all add: ConcurrentQueue_def)
  ultimately show ?thesis
    unfolding lock_inv_def by simp
qed

lemma kind_inv_init: "kind_inv (ConcurrentQueue n m)"
  unfolding kind_inv_def
  by (auto simp add: ConcurrentQueue_def nth_append)

lemma pool_inv_init: "pool_inv (ConcurrentQueue n m)"
proof -
  have "done_inv (ConcurrentQueue n m)" "join_inv (ConcurrentQueue n m)"
    "wake_inv (ConcurrentQueue n m)" "live_inv (ConcurrentQueue n m)"
    using set_pcs_ConcurrentQueue [of n m]
    by (auto simp add: done_inv_def join_inv_def wake_inv_def live_inv_def)
  moreover have "fifo_inv (ConcurrentQueue n m)" "exec_inv (ConcurrentQueue n m)"
    "total_inv (ConcurrentQueue n m)" "ret_inv (ConcurrentQueue n m)"
    "replay_inv (ConcurrentQueue n m)"
    by (simp_all add: fifo_inv_def exec_inv_def total_inv_def ret_inv_def replay_inv_def
        replay_def hist_defs ConcurrentQueue_def)
  moreover have "joining_inv (ConcurrentQueue n m)"
    unfolding joining_inv_def using pcs_ConcurrentQueue_nth [of _ n m] by fastforce
  ultimately show ?thesis
    using counter_inv_init lock_inv_init kind_inv_init by (simp add: pool_inv_def)
qed

lemma pool_inv_step:
  assumes "pool_inv s" and st: "step e s = Some (Inr s')"
  shows "pool_inv s'"
proof -
  from assms(1) have i: "counter_inv s" "lock_inv s" "kind_inv s" "done_inv s" "join_inv s"
    "wake_inv s" "live_inv s" "fifo_inv s" "exec_inv s" "total_inv s" "ret_inv s"
    "replay_inv s" "joining_inv s"
    by (simp_all add: pool_inv_def)
  from i(3) have tcl: "threadCount s \<le> length (pcs s)"
    by (simp add: kind_inv_def)
  note counter_inv_step [OF i(1) st] lock_inv_step [OF i(2) st] kind_inv_step [OF i(3) st]
    done_inv_step [OF i(4) st] join_inv_step [OF i(5) st] wake_inv_step [OF i(6) i(1) st]
    live_inv_step [OF i(7) st] fifo_inv_step [OF i(8) st] exec_inv_step [OF i(9) st]
    total_inv_step [OF i(10) st] ret_inv_step [OF i(11) st] replay_inv_step [OF i(12) st]
    joining_inv_step [OF i(13) tcl st]
  then show ?thesis
    by (simp add: pool_inv_def)
qed

lemma reachable_pool_inv:
  assumes "reachable s0 s" and "pool_inv s0"
  shows "pool_inv s"
  using assms by (induction rule: reachable.induct) (auto intro: pool_inv_step)

lemma reachable_inv: "reachable (ConcurrentQueue n m) s \<Longrightarrow> pool_inv s"
  by (rule reachable_pool_inv [OF _ pool_inv_init])

lemma reachable_trans:
  assumes "reachable s0 s" and "reachable s s'"
  shows "reachable s0 s'"
  using assms(2) assms(1)
  by (induction rule: reachable.induct) (auto intro: reachable.next_step)

lemma run_reachable: "run es s = Some (Inr s') \<Longrightarrow> reachable s s'"
proof (induction es arbitrary: s s')
  case Nil
  then show ?case by (simp add: reachable.start)
next
  case (Cons e es)
  from Cons.prems obtain s1 where s1: "step e s = Some (Inr s1)" and r: "run es s1 = Some (Inr s')"
    by (auto split: option.splits sum.splits)
  have "reachable s s1"
    by (rule reachable.next_step [OF reachable.start s1])
  with Cons.IH [OF r] show ?case
    by (blast intro: reachable_trans)
qed

section \<open>The claims\<close>

subsection \<open>Auxiliary facts\<close>

lemma reachable_counter:
  assumes "reachable (ConcurrentQueue n m) s"
  shows "0 \<le> jobsLeft s" and "int (length (queue s)) \<le> jobsLeft s"
  using reachable_inv [OF assms] owed_sum_nonneg [of "pcs s"]
  by (simp_all add: pool_inv_def counter_inv_def)

lemma go_assert_site:
  assumes "go t p s = Some (Inl AssertFailed)"
  shows "assert_fails p s"
  using assms
  by (cases p) (auto simp add: step_defs Let_def split: if_splits list.splits ret.splits)

lemma step_assert_site:
  assumes "step e s = Some (Inl AssertFailed)"
  shows "\<exists>t. e = Go t \<and> t < length (pcs s) \<and> assert_fails (pcs s ! t) s"
proof (cases e)
  case (Call t c)
  with assms show ?thesis
    by (cases c) (auto simp add: lock_queue_def lock_jobsLeft_def split: if_splits)
next
  case (Go t)
  with assms go_assert_site [of t "pcs s ! t" s] show ?thesis
    by (auto split: if_splits)
next
  case (Signal t w)
  with assms show ?thesis by (auto split: if_splits)
next
  case (Spurious t)
  with assms show ?thesis by (auto split: if_splits)
qed

lemma counter_inv_no_assert:
  assumes "counter_inv s" "t < length (pcs s)"
  shows "\<not> assert_fails (pcs s ! t) s"
proof -
  from assms have ok: "pc_ok (pcs s ! t)"
    and le: "owed (pcs s ! t) \<le> sum_list (map owed (pcs s))"
    and eq: "jobsLeft s = int (length (queue s)) + sum_list (map owed (pcs s))"
    and mx: "jobsLeft s \<le> INT_MAX"
    using list_all_nth [of pc_ok "pcs s" t] owed_le_sum [of "pcs s" t]
    by (simp_all add: counter_inv_def)
  then show ?thesis
    by (cases "pcs s ! t") auto
qed

lemma step_no_empty_front: "step e s \<noteq> Some (Inl EmptyFront)"
proof (cases e)
  case (Call t c)
  then show ?thesis
    by (cases c) (auto simp add: lock_queue_def lock_jobsLeft_def split: if_splits)
next
  case (Go t)
  have "go t p s \<noteq> Some (Inl EmptyFront)" for p
    by (cases p) (auto simp add: step_defs Let_def split: if_splits list.splits ret.splits)
  with Go show ?thesis by simp
next
  case (Signal t w)
  then show ?thesis by simp
next
  case (Spurious t)
  then show ?thesis by simp
qed

lemma run_two_queued:
  "run [Call 0 (Enqueue (Job 1 5 False)), Go 0, Go 0, Go 0, Go 0,
        Call 0 (Enqueue (Job 2 3 False)), Go 0, Go 0, Go 0, Go 0,
        Call 0 CancelPending, Go 0, Go 0] (ConcurrentQueue 0 1) = Some (Inr two_queued)"
  by (simp add: ConcurrentQueue_def two_queued_def step_defs INT_MAX_def)

lemma step_jobsLeft:
  assumes "step e s = Some (Inr s')"
  shows "jobsLeft s' = jobsLeft s \<or>
    (\<exists>t j. e = Go t \<and> t < length (pcs s) \<and> pcs s ! t = Enq_L1 j \<and>
       pcs s' ! t = Enq_Counted j \<and> jobsLeft s' = jobsLeft s + 1 \<and> queue s' = queue s) \<or>
    (\<exists>t cnt r. e = Go t \<and> t < length (pcs s) \<and> pcs s ! t = Fin_L cnt r \<and>
       jobsLeft s' = jobsLeft s - cnt)"
proof (cases e)
  case (Call t c)
  with assms show ?thesis
    by (cases c) (auto simp add: lock_queue_def lock_jobsLeft_def split: if_splits)
next
  case (Go t)
  with assms have t: "t < length (pcs s)" and g: "go t (pcs s ! t) s = Some (Inr s')"
    by (simp_all split: if_splits)
  from g t show ?thesis
  proof (cases rule: go_cases)
    case (enq_count j)
    with Go t show ?thesis by simp
  next
    case (fin_dec cnt r)
    with Go t show ?thesis by simp
  next
    case (fin_zero r)
    then show ?thesis by (cases r) (simp_all add: return_to_def)
  next
    case (fin_pos k r)
    then show ?thesis by (cases r) (simp_all add: return_to_def)
  qed simp_all
next
  case (Signal t w)
  with assms show ?thesis by (auto split: if_splits)
next
  case (Spurious t)
  with assms show ?thesis by (auto split: if_splits)
qed

subsection \<open>Assertions\<close>

text \<open>
  C9. The pool reports no error to its callers; it only asserts. An assertion can fail
  at three places only: in \<open>cancelPending\<close> when the drained count exceeds \<open>INT_MAX\<close>
  (line 62), in \<open>finalizeJobs\<close> when the decrement would make \<open>jobsLeft\<close> negative
  (line 124) or has made it negative (line 129). In every state the pool can reach from
  its construction none of them fails, so no step ends in a failed assertion; nor does
  \<open>front()\<close> ever read an empty queue. (The two other ways a run can end are outside
  the assertions: \<open>++jobsLeft\<close> at \<open>INT_MAX\<close>, which is undefined behaviour, and an
  exception from a job.)
\<close>

theorem no_assertion_fails:
  "(step e s = Some (Inl AssertFailed) \<longrightarrow>
      (\<exists>t. e = Go t \<and> t < length (pcs s) \<and> assert_fails (pcs s ! t) s)) \<and>
   (reachable (ConcurrentQueue n m) s \<longrightarrow>
      (\<forall>t < length (pcs s). \<not> assert_fails (pcs s ! t) s) \<and>
      step e s \<noteq> Some (Inl AssertFailed) \<and> step e s \<noteq> Some (Inl EmptyFront))"
proof (intro conjI impI)
  assume "step e s = Some (Inl AssertFailed)"
  then show "\<exists>t. e = Go t \<and> t < length (pcs s) \<and> assert_fails (pcs s ! t) s"
    by (rule step_assert_site)
next
  assume r: "reachable (ConcurrentQueue n m) s"
  then have c: "counter_inv s"
    using reachable_inv by (simp add: pool_inv_def)
  then show "\<forall>t < length (pcs s). \<not> assert_fails (pcs s ! t) s"
    using counter_inv_no_assert by blast
  with step_assert_site [of e s] show "step e s \<noteq> Some (Inl AssertFailed)"
    by blast
  show "step e s \<noteq> Some (Inl EmptyFront)"
    by (rule step_no_empty_front)
qed

theorem no_assertion_fails_witness:
  "step (Go 0) two_broken = Some (Inl AssertFailed) \<and>
   assert_fails (pcs two_broken ! 0) two_broken \<and>
   reachable (ConcurrentQueue 0 1) two_queued \<and>
   \<not> assert_fails (pcs two_queued ! 0) two_queued \<and>
   step (Go 0) two_queued \<noteq> Some (Inl AssertFailed) \<and>
   step (Go 0) two_queued \<noteq> Some (Inl EmptyFront)"
proof -
  have a: "step (Go 0) two_broken = Some (Inl AssertFailed)"
    by (simp add: two_broken_def two_queued_def step_defs)
  have r: "reachable (ConcurrentQueue 0 1) two_queued"
    by (rule run_reachable [OF run_two_queued])
  have l: "0 < length (pcs two_queued)"
    by (simp add: two_queued_def)
  from no_assertion_fails [of "Go 0" two_broken 0 1] a
  have "assert_fails (pcs two_broken ! 0) two_broken" by blast
  moreover from no_assertion_fails [of "Go 0" two_queued 0 1] r l
  have "\<not> assert_fails (pcs two_queued ! 0) two_queued \<and>
    step (Go 0) two_queued \<noteq> Some (Inl AssertFailed) \<and>
    step (Go 0) two_queued \<noteq> Some (Inl EmptyFront)" by blast
  ultimately show ?thesis using a r by blast
qed

subsection \<open>The counter\<close>

text \<open>
  C2. In every reachable state \<open>jobsLeft\<close> is not negative and is at least the length
  of \<open>_queue\<close>, and every step keeps it so. A step that changes \<open>jobsLeft\<close> is one
  of three: \<open>enqueue\<close> adds 1 under \<open>jobsLeftMutex\<close>, before its job is appended
  (the queue is unchanged and the thread still has to push); a worker, in
  \<open>finalizeJobs(1)\<close> after its job has returned, subtracts 1; a client in
  \<open>cancelPending\<close> subtracts the length of the \<open>oldQueue\<close> it has swapped out.
\<close>

theorem counter_invariant:
  assumes "reachable (ConcurrentQueue n m) s"
  shows "0 \<le> jobsLeft s \<and> int (length (queue s)) \<le> jobsLeft s \<and>
    (step e s = Some (Inr s') \<longrightarrow>
       0 \<le> jobsLeft s' \<and> int (length (queue s')) \<le> jobsLeft s' \<and>
       (jobsLeft s' = jobsLeft s \<or>
        (\<exists>t j. e = Go t \<and> pcs s ! t = Enq_L1 j \<and> pcs s' ! t = Enq_Counted j \<and>
           jobsLeft s' = jobsLeft s + 1 \<and> queue s' = queue s) \<or>
        (\<exists>t. e = Go t \<and> t < threadCount s \<and> pcs s ! t = Fin_L 1 RetWorker \<and>
           jobsLeft s' = jobsLeft s - 1) \<or>
        (\<exists>t old. e = Go t \<and> threadCount s \<le> t \<and>
           pcs s ! t = Fin_L (int (length old)) (RetCancel old) \<and>
           jobsLeft s' = jobsLeft s - int (length old))))"
proof (intro conjI impI)
  show "0 \<le> jobsLeft s" "int (length (queue s)) \<le> jobsLeft s"
    using reachable_counter [OF assms] by simp_all
next
  assume st: "step e s = Some (Inr s')"
  with assms have r': "reachable (ConcurrentQueue n m) s'"
    by (rule reachable.next_step)
  show "0 \<le> jobsLeft s'" "int (length (queue s')) \<le> jobsLeft s'"
    using reachable_counter [OF r'] by simp_all
  from reachable_inv [OF assms] have ok: "list_all pc_ok (pcs s)" and kind: "kind_inv s"
    by (simp_all add: pool_inv_def counter_inv_def)
  from step_jobsLeft [OF st]
  show "jobsLeft s' = jobsLeft s \<or>
        (\<exists>t j. e = Go t \<and> pcs s ! t = Enq_L1 j \<and> pcs s' ! t = Enq_Counted j \<and>
           jobsLeft s' = jobsLeft s + 1 \<and> queue s' = queue s) \<or>
        (\<exists>t. e = Go t \<and> t < threadCount s \<and> pcs s ! t = Fin_L 1 RetWorker \<and>
           jobsLeft s' = jobsLeft s - 1) \<or>
        (\<exists>t old. e = Go t \<and> threadCount s \<le> t \<and>
           pcs s ! t = Fin_L (int (length old)) (RetCancel old) \<and>
           jobsLeft s' = jobsLeft s - int (length old))"
  proof (elim disjE exE conjE)
    fix t cnt r
    assume e: "e = Go t" and t: "t < length (pcs s)" and pc: "pcs s ! t = Fin_L cnt r"
      and j: "jobsLeft s' = jobsLeft s - cnt"
    from ok t pc have pk: "pc_ok (Fin_L cnt r)"
      using list_all_nth [of pc_ok "pcs s" t] by simp
    from kind t have w: "worker_pc (pcs s ! t) = (t < threadCount s)"
      by (simp add: kind_inv_def)
    show ?thesis
    proof (cases r)
      case RetWorker
      with pk pc w e j show ?thesis by auto
    next
      case (RetCancel old)
      with pk pc w e j show ?thesis by auto
    qed
  qed blast+
qed

theorem counter_invariant_witness:
  "reachable (ConcurrentQueue 0 1) two_queued \<and>
   step (Go 0) two_queued = Some (Inr two_charged) \<and>
   0 \<le> jobsLeft two_queued \<and> int (length (queue two_queued)) \<le> jobsLeft two_queued \<and>
   0 \<le> jobsLeft two_charged \<and> int (length (queue two_charged)) \<le> jobsLeft two_charged \<and>
   jobsLeft two_charged = jobsLeft two_queued - 2"
proof -
  have r: "reachable (ConcurrentQueue 0 1) two_queued"
    by (rule run_reachable [OF run_two_queued])
  have st: "step (Go 0) two_queued = Some (Inr two_charged)"
    by (simp add: two_charged_def two_queued_def step_defs)
  have d: "jobsLeft two_charged = jobsLeft two_queued - 2"
    by (simp add: two_charged_def two_queued_def)
  from counter_invariant [OF r, of "Go 0" two_charged] st r d show ?thesis
    by blast
qed

subsection \<open>The worker loop and teardown\<close>

lemma step_taken:
  assumes "step e s = Some (Inr s')"
  shows "taken s' = taken s \<or>
    (\<exists>t j. e = Go t \<and> t < length (pcs s) \<and> (pcs s ! t = W_L \<or> pcs s ! t = W_Re) \<and>
       \<not> bailout s \<and> queue s = j # queue s' \<and> taken s' = taken s @ [j] \<and>
       pcs s' ! t = W_Job j \<and> queueMutex s' = None)"
proof (cases e)
  case (Call t c)
  with assms show ?thesis
    by (cases c) (auto simp add: lock_queue_def lock_jobsLeft_def taken_def split: if_splits)
next
  case (Go t)
  with assms have t: "t < length (pcs s)" and g: "go t (pcs s ! t) s = Some (Inr s')"
    by (simp_all split: if_splits)
  from g t show ?thesis
  proof (cases rule: go_cases)
    case (w_take j q)
    with Go t show ?thesis by (simp add: taken_def)
  next
    case (fin_zero r)
    then show ?thesis by (cases r) (simp_all add: return_to_def taken_def)
  next
    case (fin_pos k r)
    then show ?thesis by (cases r) (simp_all add: return_to_def taken_def)
  qed (simp_all add: taken_def)
next
  case (Signal t w)
  with assms show ?thesis by (auto simp add: taken_def split: if_splits)
next
  case (Spurious t)
  with assms show ?thesis by (auto simp add: taken_def split: if_splits)
qed

lemma step_bailout:
  assumes "step e s = Some (Inr s')"
  shows "bailout s' = bailout s \<or>
    (\<exists>t. e = Go t \<and> t < length (pcs s) \<and> pcs s ! t = Join_L \<and> \<not> bailout s \<and> bailout s' \<and>
       pcs s' ! t = Join_Flagged \<and> queueMutex s' = None)"
proof (cases e)
  case (Call t c)
  with assms show ?thesis
    by (cases c) (auto simp add: lock_queue_def lock_jobsLeft_def split: if_splits)
next
  case (Go t)
  with assms have t: "t < length (pcs s)" and g: "go t (pcs s ! t) s = Some (Inr s')"
    by (simp_all split: if_splits)
  from g t show ?thesis
  proof (cases rule: go_cases)
    case join_flag
    with Go t show ?thesis by simp
  next
    case (fin_zero r)
    then show ?thesis by (cases r) (simp_all add: return_to_def)
  next
    case (fin_pos k r)
    then show ?thesis by (cases r) (simp_all add: return_to_def)
  qed simp_all
next
  case (Signal t w)
  with assms show ?thesis by (auto split: if_splits)
next
  case (Spurious t)
  with assms show ?thesis by (auto split: if_splits)
qed

lemma step_queue:
  assumes "step e s = Some (Inr s')"
  shows "queue s' = queue s \<or>
    (\<exists>t j. e = Go t \<and> t < length (pcs s) \<and> pcs s ! t = Enq_L2 j \<and> queue s' = queue s @ [j]) \<or>
    (\<exists>t. e = Go t \<and> t < length (pcs s) \<and> pcs s ! t = Can_L \<and> queue s' = [] \<and>
       pcs s' ! t = Can_Swapped (queue s)) \<or>
    (\<exists>t j. e = Go t \<and> t < length (pcs s) \<and> (pcs s ! t = W_L \<or> pcs s ! t = W_Re) \<and>
       \<not> bailout s \<and> queue s = j # queue s')"
proof (cases e)
  case (Call t c)
  with assms show ?thesis
    by (cases c) (auto simp add: lock_queue_def lock_jobsLeft_def split: if_splits)
next
  case (Go t)
  with assms have t: "t < length (pcs s)" and g: "go t (pcs s ! t) s = Some (Inr s')"
    by (simp_all split: if_splits)
  from g t show ?thesis
  proof (cases rule: go_cases)
    case (enq_push j)
    with Go t show ?thesis by simp
  next
    case can_swap
    with Go t show ?thesis by simp
  next
    case (w_take j q)
    with Go t show ?thesis by simp
  next
    case (fin_zero r)
    then show ?thesis by (cases r) (simp_all add: return_to_def)
  next
    case (fin_pos k r)
    then show ?thesis by (cases r) (simp_all add: return_to_def)
  qed simp_all
next
  case (Signal t w)
  with assms show ?thesis by (auto split: if_splits)
next
  case (Spurious t)
  with assms show ?thesis by (auto split: if_splits)
qed

lemma bailout_stays:
  assumes "reachable s s'" and "bailout s"
  shows "bailout s'"
  using assms
proof (induction rule: reachable.induct)
  case start
  then show ?case by simp
next
  case (next_step s1 e s2)
  with step_bailout [OF next_step(2)] show ?case by auto
qed

lemma no_pop_after_bailout:
  assumes "reachable s s'" and "bailout s"
  shows "taken s' = taken s"
  using assms
proof (induction rule: reachable.induct)
  case start
  then show ?case by simp
next
  case (next_step s1 e s2)
  from next_step have "bailout s1" by (simp add: bailout_stays)
  with step_taken [OF next_step(2)] next_step show ?case by auto
qed


lemma worker_bail:
  assumes "t < length (pcs s)" "pcs s ! t = W_L \<or> pcs s ! t = W_Re" "bailout s"
  shows "step (Go t) s = Some (Inr (s\<lparr>queueMutex := None, pcs := (pcs s)[t := W_Done]\<rparr>))"
  using assms by (auto simp add: step_defs)





lemma state_restore_queueMutex:
  "queueMutex s = None \<Longrightarrow> pcs s ! t = p \<Longrightarrow>
     s\<lparr>queueMutex := None, pcs := (pcs s)[t := p]\<rparr> = s"
  by (cases s) auto

lemma state_restore_jobsLeftMutex:
  "jobsLeftMutex s = None \<Longrightarrow> pcs s ! t = p \<Longrightarrow>
     s\<lparr>jobsLeftMutex := None, pcs := (pcs s)[t := p]\<rparr> = s"
  by (cases s) auto

lemma joinAll_again:
  assumes "t < length (pcs s)" "pcs s ! t = Idle" "queueMutex s = None" "bailout s"
  shows "run [Call t JoinAll, Go t] s = Some (Inr s)"
  using assms state_restore_queueMutex [of s t Idle]
  by (simp add: step_defs)

lemma joinAll_first:
  assumes "t < length (pcs s)" "pcs s ! t = Idle" "queueMutex s = None" "\<not> bailout s"
  shows "run [Call t JoinAll, Go t, Go t] s =
    Some (Inr (s\<lparr>bailout := True, pcs := (map wake_worker (pcs s))[t := Join_Joining 0]\<rparr>))"
proof -
  have "map wake_worker ((pcs s)[t := Join_Flagged]) = (map wake_worker (pcs s))[t := Join_Flagged]"
    by (simp add: map_update)
  with assms state_restore_queueMutex [of s t Idle] show ?thesis
    by (cases s) (auto simp add: step_defs)
qed

lemma joinAll_notify_wakes:
  assumes "t < length (pcs s)" "pcs s ! t = Join_Flagged"
  shows "step (Go t) s =
      Some (Inr (s\<lparr>pcs := (map wake_worker (pcs s))[t := Join_Joining 0]\<rparr>))"
    and "W_Blocked \<notin> set ((map wake_worker (pcs s))[t := Join_Joining 0])"
  using assms by (auto simp add: step_defs dest!: in_set_updateD)

lemma joinAll_returns:
  assumes j: "joining_inv s" and t: "t < length (pcs s)"
    and pc: "pcs s ! t = Join_Joining i"
    and st: "step (Go t) s = Some (Inr s')" and idle: "pcs s' ! t = Idle"
  shows "\<forall>k < threadCount s'. pcs s' ! k = W_Done"
proof -
  from t pc st idle have i: "\<not> i < threadCount s" and s': "s' = s\<lparr>pcs := (pcs s)[t := Idle]\<rparr>"
    by (auto simp add: step_defs split: if_splits)
  show ?thesis
  proof (intro allI impI)
    fix k assume "k < threadCount s'"
    with s' i have k: "k < threadCount s" "k < i" by simp_all
    with j t pc have d: "pcs s ! k = W_Done"
      unfolding joining_inv_def by blast
    with pc have "k \<noteq> t" by auto
    with d s' show "pcs s' ! k = W_Done" by simp
  qed
qed

subsection \<open>Steps of \<open>enqueue\<close>, \<open>cancelPending\<close> and \<open>waitAll\<close>\<close>

lemma enqueue_run:
  assumes "t < length (pcs s)" "pcs s ! t = Idle" "queueMutex s = None"
    "jobsLeftMutex s = None" "jobsLeft s \<noteq> INT_MAX"
  shows "run [Call t (Enqueue j), Go t, Go t, Go t] s =
    Some (Inr (s\<lparr>queue := queue s @ [j], jobsLeft := jobsLeft s + 1,
                 pcs := (pcs s)[t := Enq_Pushed], history := history s @ [Pushed j]\<rparr>))"
  using assms by (cases s) (auto simp add: step_defs)

lemma enqueue_notify:
  assumes "t < length (pcs s)" "pcs s ! t = Enq_Pushed"
  shows "W_Blocked \<notin> set (pcs s) \<longrightarrow>
      step (Go t) s = Some (Inr (s\<lparr>pcs := (pcs s)[t := Idle]\<rparr>))"
    and "\<forall>w < length (pcs s). pcs s ! w = W_Blocked \<longrightarrow>
      step (Signal t w) s = Some (Inr (s\<lparr>pcs := (pcs s)[w := W_Woken, t := Idle]\<rparr>))"
  using assms by auto

lemma executed_subset_taken:
  assumes "exec_inv s"
  shows "mset (executed s) \<subseteq># mset (taken s)"
  using assms by (simp add: exec_inv_def)

lemma state_restore_pcs: "pcs s ! t = p \<Longrightarrow> s\<lparr>pcs := (pcs s)[t := p]\<rparr> = s"
  by (cases s) auto








lemma step_waiter_returns:
  assumes st: "step e s = Some (Inr s')" and t: "t < length (pcs s)"
    and w: "in_waitAll (pcs s ! t)" and idle: "pcs s' ! t = Idle"
  shows "e = Go t \<and> (pcs s ! t = Wait_L \<and> \<not> 0 < jobsLeft s \<or>
                        pcs s ! t = Wait_Re \<and> jobsLeft s = 0)"
proof (cases e)
  case (Call u c)
  with st have u: "u < length (pcs s)" "pcs s ! u = Idle" by (simp_all split: if_splits)
  with w have "u \<noteq> t" by auto
  with Call st u idle w show ?thesis
    by (cases c) (auto simp add: lock_queue_def lock_jobsLeft_def split: if_splits)
next
  case (Go u)
  with st have u: "u < length (pcs s)" and g: "go u (pcs s ! u) s = Some (Inr s')"
    by (simp_all split: if_splits)
  show ?thesis
  proof (cases "u = t")
    case True
    with g w idle t Go show ?thesis
      by (cases "pcs s ! t") (auto simp add: step_defs split: if_splits)
  next
    case False
    from g u have "pcs s' ! t = pcs s ! t \<or> pcs s' ! t = wake_waiter (pcs s ! t) \<or>
      pcs s' ! t = wake_worker (pcs s ! t)"
    proof (cases rule: go_cases)
      case (fin_zero r)
      with False t show ?thesis by (cases r) (simp_all add: return_to_def)
    next
      case (fin_pos k r)
      with False t show ?thesis by (cases r) (simp_all add: return_to_def)
    qed (use False t in simp_all)
    with w idle show ?thesis
      by (cases "pcs s ! t") auto
  qed
next
  case (Signal u v)
  with st w idle t show ?thesis
    by (auto simp add: nth_list_update split: if_splits)
next
  case (Spurious u)
  with st w idle t show ?thesis
    by (auto simp add: nth_list_update split: if_splits)
qed

lemma waitAll_zero:
  assumes "t < length (pcs s)" "pcs s ! t = Idle" "jobsLeftMutex s = None" "jobsLeft s = 0"
  shows "run [Call t WaitAll, Go t] s = Some (Inr s)"
  using assms state_restore_jobsLeftMutex [of s t Idle]
  by (simp add: step_defs)

lemma waitAll_check_step:
  assumes "t < length (pcs s)" "pcs s ! t = Wait_L \<or> pcs s ! t = Wait_Re"
  shows "0 < jobsLeft s \<longrightarrow>
      step (Go t) s =
        Some (Inr (s\<lparr>jobsLeftMutex := None, pcs := (pcs s)[t := Wait_Blocked]\<rparr>))"
    and "jobsLeft s = 0 \<longrightarrow>
      step (Go t) s = Some (Inr (s\<lparr>jobsLeftMutex := None, pcs := (pcs s)[t := Idle]\<rparr>))"
  using assms by (auto simp add: step_defs)

lemma step_jobsLeft_locked:
  assumes "lock_inv s" "step e s = Some (Inr s')" "jobsLeft s' \<noteq> jobsLeft s"
  shows "\<exists>u. e = Go u \<and> jobsLeftMutex s = Some u"
proof -
  from step_jobsLeft [OF assms(2)] assms(3)
  obtain u where u: "e = Go u" "u < length (pcs s)" "holdsJ (pcs s ! u)"
    by auto
  with lock_inv_held(2) [OF assms(1) u(2)] show ?thesis by blast
qed

lemma notify_pending:
  assumes w: "wake_inv s" and t: "t < length (pcs s)" "pcs s ! t = Wait_Blocked"
    and z: "jobsLeft s = 0"
  shows "\<exists>u r. u < length (pcs s) \<and> pcs s ! u = Fin_Dec 0 r \<and>
    step (Go u) s = Some (Inr (return_to u r (s\<lparr>pcs := map wake_waiter (pcs s)\<rparr>))) \<and>
    pcs (return_to u r (s\<lparr>pcs := map wake_waiter (pcs s)\<rparr>)) ! t = Wait_Woken"
proof -
  from t nth_mem [OF t(1)] have "Wait_Blocked \<in> set (pcs s)" by simp
  with w z obtain p where p: "p \<in> set (pcs s)" "notifier p"
    unfolding wake_inv_def by blast
  then obtain u where u: "u < length (pcs s)" "pcs s ! u = p"
    by (auto simp add: in_set_conv_nth)
  from p(2) obtain r where r: "p = Fin_Dec 0 r"
    by (cases p) auto
  with u t have ne: "u \<noteq> t" by auto
  from u r have st: "step (Go u) s =
      Some (Inr (return_to u r (s\<lparr>pcs := map wake_waiter (pcs s)\<rparr>)))"
    by (simp add: step_defs)
  from ne t have "pcs (return_to u r (s\<lparr>pcs := map wake_waiter (pcs s)\<rparr>)) ! t = Wait_Woken"
    by (cases r) (simp_all add: return_to_def)
  with u r st show ?thesis by blast
qed

lemma run_waiter_blocked:
  "run [Call 1 (Enqueue (Job 7 5 False)), Go 1, Go 1, Go 1, Go 1, Call 2 WaitAll, Go 2,
        Go 0, Go 0, Go 0, Go 0, Go 0] (ConcurrentQueue 1 2) = Some (Inr waiter_blocked)"
  by (simp add: ConcurrentQueue_def waiter_blocked_def step_defs INT_MAX_def numeral_2_eq_2)

lemma step_pc_kept:
  assumes st: "step e s = Some (Inr s')" and t: "t < length (pcs s)" and e: "e \<noteq> Go t"
    and p: "pcs s ! t \<noteq> Idle" "pcs s ! t \<noteq> Enq_Pushed" "pcs s ! t \<noteq> W_Blocked"
      "pcs s ! t \<noteq> Wait_Blocked"
  shows "pcs s' ! t = pcs s ! t"
proof (cases e)
  case (Call u c)
  with st have u: "u < length (pcs s)" "pcs s ! u = Idle" by (simp_all split: if_splits)
  with p have "u \<noteq> t" by auto
  with Call st u t show ?thesis
    by (cases c) (auto simp add: lock_queue_def lock_jobsLeft_def split: if_splits)
next
  case (Go u)
  with st have u: "u < length (pcs s)" and g: "go u (pcs s ! u) s = Some (Inr s')"
    by (simp_all split: if_splits)
  from Go e have ne: "u \<noteq> t" by simp
  from g u have "pcs s' ! t = pcs s ! t \<or> pcs s' ! t = wake_waiter (pcs s ! t) \<or>
      pcs s' ! t = wake_worker (pcs s ! t)"
  proof (cases rule: go_cases)
    case (fin_zero r)
    with ne t show ?thesis by (cases r) (simp_all add: return_to_def)
  next
    case (fin_pos k r)
    with ne t show ?thesis by (cases r) (simp_all add: return_to_def)
  qed (use ne t in simp_all)
  with p show ?thesis
    by (auto simp add: wake_waiter_eq wake_worker_eq)
next
  case (Signal u v)
  with st p t show ?thesis
    by (auto simp add: nth_list_update split: if_splits)
next
  case (Spurious u)
  with st p t show ?thesis
    by (auto simp add: nth_list_update split: if_splits)
qed

lemma step_length:
  assumes "step e s = Some (Inr s')"
  shows "length (pcs s') = length (pcs s)" and "threadCount s' = threadCount s"
  using assms by (cases rule: step_cases; auto simp add: return_to_def split: ret.splits)+

lemma reachable_length:
  assumes "reachable s0 s"
  shows "length (pcs s) = length (pcs s0) \<and> threadCount s = threadCount s0"
  using assms by (induction rule: reachable.induct) (auto simp add: step_length)

lemma run_one_failing:
  "run [Call 1 (Enqueue (Job 7 5 True)), Go 1, Go 1, Go 1, Go 1, Go 0, Go 0]
     (ConcurrentQueue 1 1) = Some (Inr one_failing)"
  by (simp add: ConcurrentQueue_def one_failing_def step_defs INT_MAX_def)

section \<open>Progress\<close>

subsection \<open>What becomes of the jobs\<close>

lemma dequeued_split:
  "mset (map fst (concat (map dequeued_of h))) =
     mset (concat (map taken_of h)) + mset (concat (map drained_of h))"
proof (induction h)
  case Nil
  then show ?case by simp
next
  case (Cons e h)
  then show ?case by (cases e) (simp_all add: comp_def)
qed

lemma conservation:
  assumes "fifo_inv s" "exec_inv s"
  shows "mset (pushed s) =
    mset (queue s) + sum_list (map inflight (pcs s)) + mset (executed s) + mset (drained s)"
proof -
  from assms(1) have "mset (pushed s) = mset (map fst (dequeued s)) + mset (queue s)"
    by (simp add: fifo_inv_def)
  also have "mset (map fst (dequeued s)) = mset (taken s) + mset (drained s)"
    using dequeued_split [of "history s"] by (simp add: hist_defs)
  also from assms(2) have "mset (taken s) = mset (executed s) + sum_list (map inflight (pcs s))"
    by (simp add: exec_inv_def)
  finally show ?thesis by (simp add: ac_simps)
qed

lemma distinct_mset_mono:
  assumes "mset xs \<subseteq># mset ys" "distinct ys"
  shows "distinct xs"
proof -
  have "count (mset xs) a \<le> 1" for a
  proof -
    from assms(1) have "count (mset xs) a \<le> count (mset ys) a"
      by (rule mset_subset_eq_count)
    also from assms(2) have "\<dots> \<le> 1"
      by (simp add: distinct_count_atmost_1)
    finally show ?thesis .
  qed
  then show ?thesis
    unfolding distinct_count_atmost_1
    by (metis count_mset_0_iff le_Suc_eq le_zero_eq One_nat_def)
qed

lemma holder_enabled: "holdsQ p \<or> holdsJ p \<Longrightarrow> go t p s \<noteq> None"
  by (cases p) (auto simp add: step_defs Let_def split: list.splits)

lemma free_enabled:
  assumes "queueMutex s = None" "jobsLeftMutex s = None"
    and "busy p \<or> inflight p \<noteq> {#}" "p \<noteq> Enq_Pushed"
  shows "go t p s \<noteq> None"
  using assms
  by (cases p rule: busy.cases) (auto simp add: step_defs Let_def split: list.splits)

lemma worker_stuck:
  assumes "queueMutex s = None" "jobsLeftMutex s = None" "worker_pc p" "go t p s = None"
  shows "p = W_Blocked \<or> p = W_Done"
  using assms
  by (cases p rule: worker_pc.cases) (auto simp add: step_defs Let_def split: list.splits if_splits)

lemma inflight_sum_empty:
  "(\<And>p. p \<in> set ps \<Longrightarrow> inflight p = {#}) \<Longrightarrow> sum_list (map inflight ps) = {#}"
  by (induction ps) auto

lemma quiescent_empty:
  assumes inv: "pool_inv s" and q: "quiescent s" and nb: "\<not> bailout s"
    and w: "0 < threadCount s"
  shows "queue s = []" and "sum_list (map inflight (pcs s)) = {#}"
proof -
  from inv have lock: "lock_inv s" and kind: "kind_inv s" and dn: "done_inv s"
    and live: "live_inv s"
    by (simp_all add: pool_inv_def)
  from q have go: "\<And>t. t < length (pcs s) \<Longrightarrow> go t (pcs s ! t) s = None"
    and sig: "\<And>t w. t < length (pcs s) \<Longrightarrow> w < length (pcs s) \<Longrightarrow>
      step (Signal t w) s = None"
    by (simp_all add: quiescent_def)
  have qf: "queueMutex s = None"
  proof (cases "queueMutex s")
    case (Some u)
    with lock have "u < length (pcs s)" "holdsQ (pcs s ! u)"
      unfolding lock_inv_def by blast+
    with go [of u] holder_enabled [of "pcs s ! u" u s] show ?thesis by simp
  qed simp
  have jf: "jobsLeftMutex s = None"
  proof (cases "jobsLeftMutex s")
    case (Some u)
    with lock have "u < length (pcs s)" "holdsJ (pcs s ! u)"
      unfolding lock_inv_def by blast+
    with go [of u] holder_enabled [of "pcs s ! u" u s] show ?thesis by simp
  qed simp
  from kind have "threadCount s \<le> length (pcs s)"
    by (simp add: kind_inv_def)
  with w have l0: "0 < length (pcs s)"
    by linarith
  from kind have "\<forall>t<length (pcs s). worker_pc (pcs s ! t) = (t < threadCount s)"
    by (simp add: kind_inv_def)
  with l0 w have w0: "worker_pc (pcs s ! 0)"
    by blast
  from worker_stuck [OF qf jf w0 go [OF l0]] have "pcs s ! 0 = W_Blocked \<or> pcs s ! 0 = W_Done" .
  moreover have "pcs s ! 0 \<noteq> W_Done"
  proof
    assume "pcs s ! 0 = W_Done"
    with nth_mem [OF l0] have "W_Done \<in> set (pcs s)" by simp
    with dn nb show False unfolding done_inv_def by blast
  qed
  ultimately have b0: "pcs s ! 0 = W_Blocked" by simp
  with nth_mem [OF l0] have blocked: "W_Blocked \<in> set (pcs s)" by simp
  show "queue s = []"
  proof (rule ccontr)
    assume "queue s \<noteq> []"
    with live nb blocked obtain p where "p \<in> set (pcs s)" "busy p"
      unfolding live_inv_def by blast
    then obtain u where u: "u < length (pcs s)" "pcs s ! u = p"
      by (auto simp add: in_set_conv_nth)
    show False
    proof (cases "p = Enq_Pushed")
      case True
      with u b0 l0 have "step (Signal u 0) s \<noteq> None" by simp
      with sig [OF u(1) l0] show False by simp
    next
      case False
      with free_enabled [OF qf jf, of p u] \<open>busy p\<close> go [OF u(1)] u(2) show False by simp
    qed
  qed
  show "sum_list (map inflight (pcs s)) = {#}"
  proof (rule inflight_sum_empty)
    fix p assume "p \<in> set (pcs s)"
    then obtain u where u: "u < length (pcs s)" "pcs s ! u = p"
      by (auto simp add: in_set_conv_nth)
    show "inflight p = {#}"
    proof (rule ccontr)
      assume ne: "inflight p \<noteq> {#}"
      then have "p \<noteq> Enq_Pushed" by auto
      with free_enabled [OF qf jf, of p u] ne go [OF u(1)] u(2) show False by simp
    qed
  qed
qed

subsection \<open>A measure that every step decreases\<close>

lemma weight_wake_waiter: "weight N T (wake_waiter p) \<le> weight N T p + 2"
  by (cases p) simp_all

lemma weight_wake_worker: "weight N T (wake_worker p) \<le> weight N T p + 2"
  by (cases p) simp_all

lemma weight_map_wake:
  assumes "\<And>p. weight N T (f p) \<le> weight N T p + 2"
  shows "sum_list (map (weight N T) (map f ps)) \<le> sum_list (map (weight N T) ps) + 2 * length ps"
proof (induction ps)
  case Nil
  then show ?case by simp
next
  case (Cons p ps)
  with assms [of p] show ?case by simp
qed

lemma potential_update:
  assumes t: "t < length (pcs s)"
    and pcs: "pcs s' = (pcs s)[t := p']" and tc: "threadCount s' = threadCount s"
    and less: "(2 * length (pcs s) + 6) * length (queue s') +
        weight (length (pcs s)) (threadCount s) p' <
      (2 * length (pcs s) + 6) * length (queue s) +
        weight (length (pcs s)) (threadCount s) (pcs s ! t)"
  shows "potential s' < potential s"
proof -
  let ?w = "weight (length (pcs s)) (threadCount s)"
  from sum_list_map_update_add [OF t, of ?w p']
  have "sum_list (map ?w ((pcs s)[t := p'])) + ?w (pcs s ! t) = sum_list (map ?w (pcs s)) + ?w p'" .
  with less pcs tc show ?thesis
    by (simp add: potential_def)
qed

lemma potential_update_map:
  assumes t: "t < length (pcs s)"
    and pcs: "pcs s' = (map f (pcs s))[t := p']" and tc: "threadCount s' = threadCount s"
    and q: "queue s' = queue s"
    and f: "\<And>p. weight (length (pcs s)) (threadCount s) (f p) \<le>
        weight (length (pcs s)) (threadCount s) p + 2"
    and ft: "f (pcs s ! t) = pcs s ! t"
    and less: "weight (length (pcs s)) (threadCount s) p' + 2 * length (pcs s) <
        weight (length (pcs s)) (threadCount s) (pcs s ! t)"
  shows "potential s' < potential s"
proof -
  let ?w = "weight (length (pcs s)) (threadCount s)"
  from t have t': "t < length (map f (pcs s))" by simp
  from sum_list_map_update_add [OF t', of ?w p'] t ft
  have "sum_list (map ?w ((map f (pcs s))[t := p'])) + ?w (pcs s ! t) =
      sum_list (map ?w (map f (pcs s))) + ?w p'"
    by simp
  moreover from weight_map_wake [of "length (pcs s)" "threadCount s" f "pcs s"] f
  have "sum_list (map ?w (map f (pcs s))) \<le> sum_list (map ?w (pcs s)) + 2 * length (pcs s)"
    by blast
  ultimately show ?thesis
    using less pcs tc q by (simp add: potential_def)
qed

lemma acq_queue_weight:
  "acq_queue p p' \<Longrightarrow> p \<noteq> Idle \<Longrightarrow> weight N T p' < weight N T p"
  by (auto elim: acq_queue.cases)

lemma acq_jobsLeft_weight:
  "acq_jobsLeft p p' \<Longrightarrow> p \<noteq> Idle \<Longrightarrow> weight N T p' < weight N T p"
  by (auto elim: acq_jobsLeft.cases)

lemma potential_go:
  assumes g: "go t (pcs s ! t) s = Some (Inr s')" and t: "t < length (pcs s)"
  shows "potential s' < potential s"
proof -
  from g have ni: "pcs s ! t \<noteq> Idle" by auto
  from g t show ?thesis
  proof (cases rule: go_cases)
    case (lockQ p')
    with acq_queue_weight [OF lockQ(2) ni] show ?thesis
      by (intro potential_update [OF t]) simp_all
  next
    case (lockJ p')
    with acq_jobsLeft_weight [OF lockJ(2) ni] show ?thesis
      by (intro potential_update [OF t]) simp_all
  next
    case (fin_zero r)
    show ?thesis
    proof (cases r)
      case RetWorker
      with fin_zero t show ?thesis
        by (intro potential_update_map [OF t _ _ _ weight_wake_waiter, of _ W_Top])
          (simp_all add: return_to_def)
    next
      case (RetCancel old)
      with fin_zero t show ?thesis
        by (intro potential_update_map [OF t _ _ _ weight_wake_waiter, of _ Idle])
          (simp_all add: return_to_def)
    qed
  next
    case (fin_pos k r)
    show ?thesis
    proof (cases r)
      case RetWorker
      with fin_pos show ?thesis
        by (intro potential_update [OF t, of _ W_Top]) (simp_all add: return_to_def)
    next
      case (RetCancel old)
      with fin_pos show ?thesis
        by (intro potential_update [OF t, of _ Idle]) (simp_all add: return_to_def)
    qed
  next
    case join_notify
    with t show ?thesis
      by (intro potential_update_map [OF t _ _ _ weight_wake_worker, of _ "Join_Joining 0"])
        simp_all
  next
    case (enq_count j)
    then show ?thesis
      by (intro potential_update [OF t, of _ "Enq_Counted j"]) simp_all
  next
    case (enq_push j)
    then show ?thesis
      by (intro potential_update [OF t, of _ "Enq_Pushed"]) simp_all
  next
    case enq_quiet
    then show ?thesis
      by (intro potential_update [OF t, of _ "Idle"]) simp_all
  next
    case can_swap
    then show ?thesis
      by (intro potential_update [OF t, of _ "Can_Swapped (queue s)"]) simp_all
  next
    case can_zero
    then show ?thesis
      by (intro potential_update [OF t, of _ "Idle"]) simp_all
  next
    case (fin_dec cnt r)
    then show ?thesis
      by (intro potential_update [OF t, of _ "Fin_Dec (jobsLeft s - cnt) r"]) simp_all
  next
    case join_already
    then show ?thesis
      by (intro potential_update [OF t, of _ "Idle"]) simp_all
  next
    case join_flag
    then show ?thesis
      by (intro potential_update [OF t, of _ "Join_Flagged"]) simp_all
  next
    case (join_next i)
    then show ?thesis
      by (intro potential_update [OF t, of _ "Join_Joining (Suc i)"]) simp_all
  next
    case (join_return i)
    then show ?thesis
      by (intro potential_update [OF t, of _ "Idle"]) simp_all
  next
    case (w_run j)
    then show ?thesis
      by (intro potential_update [OF t, of _ "W_Ran"]) simp_all
  next
    case wait_return
    then show ?thesis
      by (intro potential_update [OF t, of _ "Idle"]) auto
  next
    case wait_block
    then show ?thesis
      by (intro potential_update [OF t, of _ "Wait_Blocked"]) auto
  next
    case w_bail
    then show ?thesis
      by (intro potential_update [OF t, of _ "W_Done"]) auto
  next
    case (w_take j q)
    then show ?thesis
      by (intro potential_update [OF t, of _ "W_Job j"]) auto
  next
    case w_block
    then show ?thesis
      by (intro potential_update [OF t, of _ "W_Blocked"]) auto
  qed
qed

lemma potential_signal:
  assumes "step (Signal t w) s = Some (Inr s')"
  shows "potential s' < potential s"
proof -
  from assms have t: "t < length (pcs s)" and w: "w < length (pcs s)"
    and pt: "pcs s ! t = Enq_Pushed" and pw: "pcs s ! w = W_Blocked"
    and s': "s' = s\<lparr>pcs := (pcs s)[w := W_Woken, t := Idle]\<rparr>"
    by (simp_all split: if_splits)
  let ?w = "weight (length (pcs s)) (threadCount s)"
  from pt pw have ne: "w \<noteq> t" by auto
  from sum_list_map_update_add [OF w, of ?w W_Woken] pw
  have a: "sum_list (map ?w ((pcs s)[w := W_Woken])) = sum_list (map ?w (pcs s)) + 2"
    by simp
  from t have "t < length ((pcs s)[w := W_Woken])" by simp
  from sum_list_map_update_add [OF this, of ?w Idle] ne pt
  have b: "sum_list (map ?w ((pcs s)[w := W_Woken, t := Idle])) + 3 =
      sum_list (map ?w ((pcs s)[w := W_Woken]))"
    by simp
  from a b s' show ?thesis
    by (simp add: potential_def)
qed

lemma potential_step:
  assumes "is_progress e" and "step e s = Some (Inr s')"
  shows "potential s' < potential s"
proof (cases e)
  case (Go t)
  with assms(2) potential_go [of t s s'] show ?thesis
    by (simp split: if_splits)
next
  case (Signal t w)
  with assms(2) potential_signal show ?thesis by simp
qed (use assms(1) in simp_all)

lemma run_bounded:
  assumes "run es s = Some (Inr s')" and "\<forall>e\<in>set es. is_progress e"
  shows "length es + potential s' \<le> potential s"
  using assms
proof (induction es arbitrary: s)
  case Nil
  then show ?case by simp
next
  case (Cons e es)
  from Cons.prems(1) obtain s1 where s1: "step e s = Some (Inr s1)"
    and r: "run es s1 = Some (Inr s')"
    by (auto split: option.splits sum.splits)
  from Cons.prems(2) potential_step [OF _ s1] have "potential s1 < potential s" by simp
  moreover from Cons.IH [OF r] Cons.prems(2) have "length es + potential s' \<le> potential s1"
    by simp
  ultimately show ?case by simp
qed

subsection \<open>States at rest\<close>

lemma joiner_wake [simp]:
  "joiner (wake_waiter p) = joiner p" "joiner (wake_worker p) = joiner p"
  by (cases p; simp)+

lemma bex_updateD:
  "\<exists>p\<in>set (xs[t := y]). P p \<Longrightarrow> P y \<or> (\<exists>p\<in>set xs. P p)"
  by (auto dest!: in_set_updateD)

lemma acq_queue_joiner: "acq_queue p p' \<Longrightarrow> \<not> joiner p'"
  by (auto elim: acq_queue.cases)

lemma acq_jobsLeft_joiner: "acq_jobsLeft p p' \<Longrightarrow> \<not> joiner p'"
  by (auto elim: acq_jobsLeft.cases)

lemma flag_inv_step:
  assumes "flag_inv s" and "step e s = Some (Inr s')"
  shows "flag_inv s'"
  using assms(2)
proof (cases rule: step_cases)
  case (lockQ t p')
  with assms(1) acq_queue_joiner [OF lockQ(3)] show ?thesis
    by (auto simp add: flag_inv_def dest!: bex_updateD in_set_updateD)
next
  case (lockJ t p')
  with assms(1) acq_jobsLeft_joiner [OF lockJ(3)] show ?thesis
    by (auto simp add: flag_inv_def dest!: bex_updateD in_set_updateD)
next
  case (fin_zero t r)
  with assms(1) show ?thesis
    by (cases r) (auto simp add: flag_inv_def return_to_def dest!: bex_updateD in_set_updateD)
next
  case (fin_pos t k r)
  with assms(1) show ?thesis
    by (cases r) (auto simp add: flag_inv_def return_to_def dest!: bex_updateD in_set_updateD)
next
  case (join_flag t)
  then show ?thesis by (simp add: flag_inv_def)
next
  case (join_notify t)
  with nth_mem [OF join_notify(1)] have "\<exists>p\<in>set (pcs s). joiner p"
    by (metis joiner.simps(1))
  with assms(1) join_notify show ?thesis
    by (simp add: flag_inv_def)
next
  case (join_next t i)
  with nth_mem [OF join_next(1)] have "\<exists>p\<in>set (pcs s). joiner p"
    by (metis joiner.simps(2))
  with assms(1) join_next show ?thesis
    by (simp add: flag_inv_def)
qed (use assms(1) in \<open>auto simp add: flag_inv_def dest!: bex_updateD in_set_updateD\<close>)

lemma reachable_flag_inv:
  assumes "reachable (ConcurrentQueue n m) s"
  shows "flag_inv s"
  using assms
proof (induction rule: reachable.induct)
  case start
  then show ?case
    using set_pcs_ConcurrentQueue [of n m] by (auto simp add: flag_inv_def)
next
  case (next_step s e s')
  then show ?case by (auto intro: flag_inv_step)
qed

lemma stuck_pc:
  assumes "go t p s = None" "queueMutex s = None" "jobsLeftMutex s = None"
  shows "p = Idle \<or> p = Wait_Blocked \<or> p = W_Blocked \<or> p = W_Done \<or>
    (p = Enq_Pushed \<and> W_Blocked \<in> set (pcs s)) \<or>
    (\<exists>i. p = Join_Joining i \<and> i < threadCount s \<and> pcs s ! i \<noteq> W_Done)"
  using assms
  by (cases p) (auto simp add: step_defs Let_def split: if_splits list.splits)

lemma resting_owed: "resting p \<Longrightarrow> owed p = 0"
  by (cases p) simp_all

lemma owed_sum_zero: "(\<And>p. p \<in> set ps \<Longrightarrow> owed p = 0) \<Longrightarrow> sum_list (map owed ps) = 0"
  by (induction ps) auto

lemma at_rest:
  assumes inv: "pool_inv s" and fl: "flag_inv s" and q: "quiescent s"
  shows "queueMutex s = None" and "jobsLeftMutex s = None"
    and "\<forall>t < length (pcs s). resting (pcs s ! t)"
    and "bailout s \<longrightarrow> W_Blocked \<notin> set (pcs s)"
    and "\<not> bailout s \<longrightarrow> W_Done \<notin> set (pcs s)"
    and "jobsLeft s = int (length (queue s))"
    and "Wait_Blocked \<in> set (pcs s) \<longrightarrow> 0 < jobsLeft s"
proof -
  from inv have lock: "lock_inv s" and kind: "kind_inv s" and dn: "done_inv s"
    and jn: "join_inv s" and wk: "wake_inv s" and c: "counter_inv s"
    by (simp_all add: pool_inv_def)
  from q have go: "\<And>t. t < length (pcs s) \<Longrightarrow> go t (pcs s ! t) s = None"
    and sig: "\<And>t w. t < length (pcs s) \<Longrightarrow> w < length (pcs s) \<Longrightarrow>
      step (Signal t w) s = None"
    by (simp_all add: quiescent_def)
  show qf: "queueMutex s = None"
  proof (cases "queueMutex s")
    case (Some u)
    with lock have "u < length (pcs s)" "holdsQ (pcs s ! u)"
      unfolding lock_inv_def by blast+
    with go [of u] holder_enabled [of "pcs s ! u" u s] show ?thesis by simp
  qed simp
  show jf: "jobsLeftMutex s = None"
  proof (cases "jobsLeftMutex s")
    case (Some u)
    with lock have "u < length (pcs s)" "holdsJ (pcs s ! u)"
      unfolding lock_inv_def by blast+
    with go [of u] holder_enabled [of "pcs s ! u" u s] show ?thesis by simp
  qed simp
  have no_flagged: "Join_Flagged \<notin> set (pcs s)"
  proof
    assume "Join_Flagged \<in> set (pcs s)"
    then obtain u where u: "u < length (pcs s)" "pcs s ! u = Join_Flagged"
      by (auto simp add: in_set_conv_nth)
    with go [OF u(1)] show False by (simp add: step_defs)
  qed
  show nb: "bailout s \<longrightarrow> W_Blocked \<notin> set (pcs s)"
    using jn no_flagged unfolding join_inv_def by blast
  show "\<not> bailout s \<longrightarrow> W_Done \<notin> set (pcs s)"
    using dn unfolding done_inv_def by blast
  show rest: "\<forall>t < length (pcs s). resting (pcs s ! t)"
  proof (intro allI impI)
    fix t assume t: "t < length (pcs s)"
    from stuck_pc [OF go [OF t] qf jf]
    show "resting (pcs s ! t)"
    proof (elim disjE conjE exE)
      assume p: "pcs s ! t = Enq_Pushed" and "W_Blocked \<in> set (pcs s)"
      then obtain w where w: "w < length (pcs s)" "pcs s ! w = W_Blocked"
        by (auto simp add: in_set_conv_nth)
      with p t have "step (Signal t w) s \<noteq> None" by simp
      with sig [OF t w(1)] show ?thesis by simp
    next
      fix i assume p: "pcs s ! t = Join_Joining i" and i: "i < threadCount s"
        and nd: "pcs s ! i \<noteq> W_Done"
      from p nth_mem [OF t] have "\<exists>p\<in>set (pcs s). joiner p"
        by (metis joiner.simps(2))
      with fl have b: "bailout s" unfolding flag_inv_def by blast
      from kind have "threadCount s \<le> length (pcs s)"
        and k: "\<forall>t<length (pcs s). worker_pc (pcs s ! t) = (t < threadCount s)"
        by (simp_all add: kind_inv_def)
      with i have il: "i < length (pcs s)" by linarith
      with k i have "worker_pc (pcs s ! i)" by blast
      from worker_stuck [OF qf jf this go [OF il]] nd have "pcs s ! i = W_Blocked" by simp
      with nth_mem [OF il] have "W_Blocked \<in> set (pcs s)" by simp
      with nb b show ?thesis by simp
    qed simp_all
  qed
  have "sum_list (map owed (pcs s)) = 0"
  proof (rule owed_sum_zero)
    fix p assume "p \<in> set (pcs s)"
    then obtain u where "u < length (pcs s)" "pcs s ! u = p"
      by (auto simp add: in_set_conv_nth)
    with rest have "resting p" by blast
    then show "owed p = 0" by (rule resting_owed)
  qed
  with c show eq: "jobsLeft s = int (length (queue s))"
    by (simp add: counter_inv_def)
  show "Wait_Blocked \<in> set (pcs s) \<longrightarrow> 0 < jobsLeft s"
  proof
    assume w: "Wait_Blocked \<in> set (pcs s)"
    have "jobsLeft s \<noteq> 0"
    proof
      assume "jobsLeft s = 0"
      with wk w obtain p where p: "p \<in> set (pcs s)" "notifier p"
        unfolding wake_inv_def by blast
      then obtain u where "u < length (pcs s)" "pcs s ! u = p"
        by (auto simp add: in_set_conv_nth)
      with rest have "resting p" by blast
      with p(2) show False by (cases p) simp_all
    qed
    with eq show "0 < jobsLeft s" by simp
  qed
qed

lemma at_rest_workers:
  assumes inv: "pool_inv s" and fl: "flag_inv s" and q: "quiescent s" and k: "k < threadCount s"
  shows "pcs s ! k = (if bailout s then W_Done else W_Blocked)"
proof -
  from inv have kind: "kind_inv s" by (simp add: pool_inv_def)
  then have "threadCount s \<le> length (pcs s)"
    and wp: "\<forall>t<length (pcs s). worker_pc (pcs s ! t) = (t < threadCount s)"
    by (simp_all add: kind_inv_def)
  with k have kl: "k < length (pcs s)" by linarith
  with wp k have w: "worker_pc (pcs s ! k)" by blast
  from at_rest(3) [OF inv fl q] kl have r: "resting (pcs s ! k)" by blast
  from w r have "pcs s ! k = W_Blocked \<or> pcs s ! k = W_Done"
    by (cases "pcs s ! k") simp_all
  with at_rest(4,5) [OF inv fl q] nth_mem [OF kl] show ?thesis by auto
qed

lemma at_rest_clients:
  assumes inv: "pool_inv s" and fl: "flag_inv s" and q: "quiescent s"
    and t: "t < length (pcs s)" "threadCount s \<le> t"
  shows "pcs s ! t = Idle \<or> pcs s ! t = Wait_Blocked \<and> 0 < jobsLeft s"
proof -
  from inv have kind: "kind_inv s" by (simp add: pool_inv_def)
  then have "\<forall>t<length (pcs s). worker_pc (pcs s ! t) = (t < threadCount s)"
    by (simp add: kind_inv_def)
  with t have w: "\<not> worker_pc (pcs s ! t)" by auto
  from at_rest(3) [OF inv fl q] t have r: "resting (pcs s ! t)" by blast
  from w r have "pcs s ! t = Idle \<or> pcs s ! t = Wait_Blocked"
    by (cases "pcs s ! t") simp_all
  with at_rest(7) [OF inv fl q] nth_mem [OF t(1)] show ?thesis by auto
qed

lemma at_rest_running:
  assumes inv: "pool_inv s" and fl: "flag_inv s" and q: "quiescent s"
    and nb: "\<not> bailout s" and w: "0 < threadCount s"
  shows "queue s = []" and "jobsLeft s = 0" and "Wait_Blocked \<notin> set (pcs s)"
proof -
  show e: "queue s = []" by (rule quiescent_empty(1) [OF inv q nb w])
  with at_rest(6) [OF inv fl q] show z: "jobsLeft s = 0" by simp
  with at_rest(7) [OF inv fl q] show "Wait_Blocked \<notin> set (pcs s)" by auto
qed

lemma not_quiescent:
  "\<not> quiescent s \<Longrightarrow> \<exists>e. is_progress e \<and> step e s \<noteq> None"
  unfolding quiescent_def by (metis is_progress.simps(1,2))

lemma run_Cons_ok: "step e s = Some (Inr s1) \<Longrightarrow> run (e # es) s = run es s1"
  by simp

lemma run_append:
  "run es s = Some (Inr s1) \<Longrightarrow> run (es @ es') s = run es' s1"
proof (induction es arbitrary: s)
  case Nil
  then show ?case by simp
next
  case (Cons e es)
  then show ?case by (auto split: option.splits sum.splits)
qed

text \<open>
  From every state, some run of the threads (without new calls) of at most
  \<open>potential s\<close> steps leads to a state at rest, or ends the process.
\<close>

lemma comes_to_rest:
  "\<exists>es. (\<forall>e\<in>set es. is_progress e) \<and> length es \<le> potential s \<and>
     ((\<exists>s'. run es s = Some (Inr s') \<and> quiescent s') \<or> (\<exists>err. run es s = Some (Inl err)))"
proof (induction "potential s" arbitrary: s rule: less_induct)
  case less
  show ?case
  proof (cases "quiescent s")
    case True
    then show ?thesis by (intro exI [of _ "[]"]) simp
  next
    case False
    from not_quiescent [OF this] obtain e where e: "is_progress e" "step e s \<noteq> None"
      by blast
    then obtain r where r: "step e s = Some r" by auto
    show ?thesis
    proof (cases r)
      case (Inl err)
      show ?thesis
      proof (cases "potential s")
        case 0
        \<comment> \<open>with potential 0 every thread rests, so no step is possible\<close>
        have "sum_list (map (weight (length (pcs s)) (threadCount s)) (pcs s)) = 0"
          using 0 by (simp add: potential_def)
        then have w0: "\<And>p. p \<in> set (pcs s) \<Longrightarrow> weight (length (pcs s)) (threadCount s) p = 0"
          by (simp add: sum_list_eq_0_iff)
        have rest: "resting p" if "p \<in> set (pcs s)" for p
          using w0 [OF that] by (cases p) simp_all
        have "step e s = None"
        proof (cases e)
          case (Go t)
          show ?thesis
          proof (cases "t < length (pcs s)")
            case True
            from rest [OF nth_mem [OF True]] Go True show ?thesis
              by (cases "pcs s ! t") simp_all
          qed (use Go in simp)
        next
          case (Signal t w)
          show ?thesis
          proof (cases "t < length (pcs s)")
            case True
            from rest [OF nth_mem [OF True]] Signal True show ?thesis
              by (cases "pcs s ! t") simp_all
          qed (use Signal in simp)
        qed (use e in simp_all)
        with r show ?thesis by simp
      next
        case (Suc k)
        with r Inl e show ?thesis
          by (intro exI [of _ "[e]"]) simp
      qed
    next
      case (Inr s1)
      with r have st: "step e s = Some (Inr s1)" by simp
      from potential_step [OF e(1) st] have lt: "potential s1 < potential s" .
      from less [OF lt] obtain es where es: "\<forall>e\<in>set es. is_progress e"
        "length es \<le> potential s1"
        "(\<exists>s'. run es s1 = Some (Inr s') \<and> quiescent s') \<or> (\<exists>err. run es s1 = Some (Inl err))"
        by blast
      from es(3) st have "(\<exists>s'. run (e # es) s = Some (Inr s') \<and> quiescent s') \<or>
        (\<exists>err. run (e # es) s = Some (Inl err))"
        by simp
      with es(1,2) e(1) lt show ?thesis
        by (intro exI [of _ "e # es"]) simp
    qed
  qed
qed

section \<open>The claims about the operations\<close>

subsection \<open>\<open>waitAll\<close>\<close>

lemma waiter_released:
  assumes w: "wake_inv s" and t: "t < length (pcs s)" "pcs s ! t = Wait_Blocked"
    and z: "jobsLeft s = 0" and free: "jobsLeftMutex s = None"
  shows "\<exists>u < length (pcs s). \<exists>s'. run [Go u, Go t, Go t] s = Some (Inr s') \<and>
    pcs s' ! t = Idle \<and> jobsLeft s' = 0"
proof -
  from notify_pending [OF w t z] obtain u r where u: "u < length (pcs s)"
    "pcs s ! u = Fin_Dec 0 r"
    and st1: "step (Go u) s = Some (Inr (return_to u r (s\<lparr>pcs := map wake_waiter (pcs s)\<rparr>)))"
    and woken: "pcs (return_to u r (s\<lparr>pcs := map wake_waiter (pcs s)\<rparr>)) ! t = Wait_Woken"
    by blast
  define s1 where "s1 = return_to u r (s\<lparr>pcs := map wake_waiter (pcs s)\<rparr>)"
  have s1: "jobsLeftMutex s1 = None" "jobsLeft s1 = 0" "length (pcs s1) = length (pcs s)"
    using free z by (cases r; simp add: s1_def return_to_def)+
  from woken have w1: "pcs s1 ! t = Wait_Woken" by (simp add: s1_def)
  define s2 where "s2 = s1\<lparr>jobsLeftMutex := Some t, pcs := (pcs s1)[t := Wait_Re]\<rparr>"
  from s1 w1 t have st2: "step (Go t) s1 = Some (Inr s2)"
    by (simp add: s2_def step_defs)
  define s3 where "s3 = s2\<lparr>jobsLeftMutex := None, pcs := (pcs s2)[t := Idle]\<rparr>"
  from s1 t have st3: "step (Go t) s2 = Some (Inr s3)"
    by (simp add: s2_def s3_def step_defs)
  from st1 st2 st3 have "run [Go u, Go t, Go t] s = Some (Inr s3)"
    by (simp add: s1_def)
  moreover from s1 t have "pcs s3 ! t = Idle" "jobsLeft s3 = 0"
    by (simp_all add: s3_def s2_def)
  ultimately show ?thesis using u(1) by blast
qed

lemma waitAll_enter:
  assumes "t < length (pcs s)" "pcs s ! t = Idle" "jobsLeftMutex s = None"
  shows "step (Call t WaitAll) s =
    Some (Inr (s\<lparr>jobsLeftMutex := Some t, pcs := (pcs s)[t := Wait_L]\<rparr>))"
  using assms by (simp add: step_defs)

lemma waitAll_blocked:
  assumes "t < length (pcs s)" "pcs s ! t = Wait_Blocked"
  shows "step (Go t) s = None"
    and "step (Spurious t) s = Some (Inr (s\<lparr>pcs := (pcs s)[t := Wait_Woken]\<rparr>))"
  using assms by simp_all

lemma waitAll_relock:
  assumes "t < length (pcs s)" "pcs s ! t = Wait_Woken"
  shows "jobsLeftMutex s = None \<longrightarrow>
      step (Go t) s =
        Some (Inr (s\<lparr>jobsLeftMutex := Some t, pcs := (pcs s)[t := Wait_Re]\<rparr>))"
    and "jobsLeftMutex s \<noteq> None \<longrightarrow> step (Go t) s = None"
  using assms by (simp_all add: step_defs)

lemma at_rest_waiter:
  assumes inv: "pool_inv s" and fl: "flag_inv s" and q: "quiescent s"
    and t: "t < length (pcs s)" and w: "in_waitAll (pcs s ! t)"
  shows "pcs s ! t = Wait_Blocked \<and> 0 < jobsLeft s"
proof -
  from at_rest(3) [OF inv fl q] t have "resting (pcs s ! t)" by blast
  with w have b: "pcs s ! t = Wait_Blocked" by (cases "pcs s ! t") simp_all
  with nth_mem [OF t] have "Wait_Blocked \<in> set (pcs s)" by simp
  with at_rest(7) [OF inv fl q] b show ?thesis by simp
qed

text \<open>
  C4. \<open>waitAll\<close> takes \<open>jobsLeftMutex\<close> at its call and evaluates \<open>jobsLeft > 0\<close> as
  the holder of that mutex; all updates of \<open>jobsLeft\<close> are steps of the holder of the
  same mutex. If \<open>jobsLeft\<close> is greater than 0 the thread releases the mutex and
  blocks on \<open>_waitVar\<close>; if \<open>jobsLeft\<close> is 0, as it is right after construction, the
  call returns at once and leaves the state as it was. A thread inside \<open>waitAll\<close>
  returns only by its own step, in a state where \<open>jobsLeft\<close> is 0. A blocked waiter
  does not move by itself; once it is woken (by \<open>notify_all\<close> or spuriously) it takes
  \<open>jobsLeftMutex\<close> again as soon as the mutex is free and evaluates the predicate
  again. No wake-up is missed: whenever a waiter is blocked while \<open>jobsLeft\<close> is 0, the
  thread that brought the counter to 0 is about to run \<open>notify_all\<close>, that step is
  enabled and wakes the waiter, and with the mutex free the waiter then returns within
  two steps of its own. Without new calls the threads can take at most \<open>potential s\<close>
  steps, and in a state at rest a thread is inside \<open>waitAll\<close> only if it is blocked
  and \<open>jobsLeft\<close> is greater than 0; in a pool with at least one worker and without
  teardown, a state at rest has \<open>jobsLeft = 0\<close> and no thread inside \<open>waitAll\<close>.
\<close>

theorem waitAll_barrier:
  assumes "reachable (ConcurrentQueue n m) s" and "t < length (pcs s)"
  shows "((pcs s ! t = Wait_L \<or> pcs s ! t = Wait_Re) \<longrightarrow>
           jobsLeftMutex s = Some t \<and>
           (0 < jobsLeft s \<longrightarrow>
              step (Go t) s =
                Some (Inr (s\<lparr>jobsLeftMutex := None, pcs := (pcs s)[t := Wait_Blocked]\<rparr>))) \<and>
           (jobsLeft s = 0 \<longrightarrow>
              step (Go t) s =
                Some (Inr (s\<lparr>jobsLeftMutex := None, pcs := (pcs s)[t := Idle]\<rparr>)))) \<and>
         (in_waitAll (pcs s ! t) \<and> step e s = Some (Inr s') \<and> pcs s' ! t = Idle \<longrightarrow>
            jobsLeft s = 0 \<and> e = Go t \<and> jobsLeftMutex s = Some t) \<and>
         (pcs s ! t = Idle \<and> jobsLeftMutex s = None \<and> jobsLeft s = 0 \<longrightarrow>
            run [Call t WaitAll, Go t] s = Some (Inr s)) \<and>
         (step e s = Some (Inr s') \<and> jobsLeft s' \<noteq> jobsLeft s \<longrightarrow>
            (\<exists>u. e = Go u \<and> jobsLeftMutex s = Some u)) \<and>
         (pcs s ! t = Wait_Blocked \<and> jobsLeft s = 0 \<longrightarrow>
            (\<exists>u r. u < length (pcs s) \<and> pcs s ! u = Fin_Dec 0 r \<and>
               step (Go u) s =
                 Some (Inr (return_to u r (s\<lparr>pcs := map wake_waiter (pcs s)\<rparr>))) \<and>
               pcs (return_to u r (s\<lparr>pcs := map wake_waiter (pcs s)\<rparr>)) ! t = Wait_Woken)) \<and>
         (pcs s ! t = Idle \<and> jobsLeftMutex s = None \<longrightarrow>
            step (Call t WaitAll) s =
              Some (Inr (s\<lparr>jobsLeftMutex := Some t, pcs := (pcs s)[t := Wait_L]\<rparr>))) \<and>
         (pcs s ! t = Wait_Blocked \<longrightarrow>
            step (Go t) s = None \<and>
            step (Spurious t) s = Some (Inr (s\<lparr>pcs := (pcs s)[t := Wait_Woken]\<rparr>))) \<and>
         (pcs s ! t = Wait_Woken \<longrightarrow>
            (jobsLeftMutex s = None \<longrightarrow>
               step (Go t) s =
                 Some (Inr (s\<lparr>jobsLeftMutex := Some t, pcs := (pcs s)[t := Wait_Re]\<rparr>))) \<and>
            (jobsLeftMutex s \<noteq> None \<longrightarrow> step (Go t) s = None)) \<and>
         (pcs s ! t = Wait_Blocked \<and> jobsLeft s = 0 \<and> jobsLeftMutex s = None \<longrightarrow>
            (\<exists>u < length (pcs s). \<exists>s''. run [Go u, Go t, Go t] s = Some (Inr s'') \<and>
               pcs s'' ! t = Idle \<and> jobsLeft s'' = 0)) \<and>
         (run es s = Some (Inr s') \<and> (\<forall>e\<in>set es. is_progress e) \<longrightarrow>
            length es \<le> potential s) \<and>
         (quiescent s \<and> in_waitAll (pcs s ! t) \<longrightarrow>
            pcs s ! t = Wait_Blocked \<and> 0 < jobsLeft s) \<and>
         (quiescent s \<and> \<not> bailout s \<and> 0 < n \<longrightarrow>
            jobsLeft s = 0 \<and> \<not> in_waitAll (pcs s ! t))"
proof -
  from reachable_inv [OF assms(1)] have inv: "pool_inv s" .
  then have lock: "lock_inv s" and w: "wake_inv s"
    by (simp_all add: pool_inv_def)
  note fl = reachable_flag_inv [OF assms(1)]
  note nonneg = reachable_counter(1) [OF assms(1)]
  have 1: "(pcs s ! t = Wait_L \<or> pcs s ! t = Wait_Re) \<longrightarrow>
           jobsLeftMutex s = Some t \<and>
           (0 < jobsLeft s \<longrightarrow>
              step (Go t) s =
                Some (Inr (s\<lparr>jobsLeftMutex := None, pcs := (pcs s)[t := Wait_Blocked]\<rparr>))) \<and>
           (jobsLeft s = 0 \<longrightarrow>
              step (Go t) s =
                Some (Inr (s\<lparr>jobsLeftMutex := None, pcs := (pcs s)[t := Idle]\<rparr>)))"
  proof
    assume pc: "pcs s ! t = Wait_L \<or> pcs s ! t = Wait_Re"
    then have "holdsJ (pcs s ! t)" by auto
    with lock_inv_held(2) [OF lock assms(2)] have "jobsLeftMutex s = Some t" by simp
    with waitAll_check_step [OF assms(2) pc]
    show "jobsLeftMutex s = Some t \<and>
           (0 < jobsLeft s \<longrightarrow>
              step (Go t) s =
                Some (Inr (s\<lparr>jobsLeftMutex := None, pcs := (pcs s)[t := Wait_Blocked]\<rparr>))) \<and>
           (jobsLeft s = 0 \<longrightarrow>
              step (Go t) s =
                Some (Inr (s\<lparr>jobsLeftMutex := None, pcs := (pcs s)[t := Idle]\<rparr>)))"
      by blast
  qed
  have 2: "in_waitAll (pcs s ! t) \<and> step e s = Some (Inr s') \<and> pcs s' ! t = Idle \<longrightarrow>
            jobsLeft s = 0 \<and> e = Go t \<and> jobsLeftMutex s = Some t"
  proof (intro impI, elim conjE)
    assume a: "in_waitAll (pcs s ! t)" "step e s = Some (Inr s')" "pcs s' ! t = Idle"
    from step_waiter_returns [OF a(2) assms(2) a(1) a(3)]
    have e: "e = Go t" and pc: "pcs s ! t = Wait_L \<and> \<not> 0 < jobsLeft s \<or>
        pcs s ! t = Wait_Re \<and> jobsLeft s = 0"
      by simp_all
    from pc nonneg have z: "jobsLeft s = 0" by auto
    from pc have "holdsJ (pcs s ! t)" by auto
    with lock_inv_held(2) [OF lock assms(2)] have "jobsLeftMutex s = Some t" by simp
    with e z show "jobsLeft s = 0 \<and> e = Go t \<and> jobsLeftMutex s = Some t" by simp
  qed
  have 3: "pcs s ! t = Idle \<and> jobsLeftMutex s = None \<and> jobsLeft s = 0 \<longrightarrow>
            run [Call t WaitAll, Go t] s = Some (Inr s)"
    using waitAll_zero [OF assms(2)] by blast
  have 4: "step e s = Some (Inr s') \<and> jobsLeft s' \<noteq> jobsLeft s \<longrightarrow>
            (\<exists>u. e = Go u \<and> jobsLeftMutex s = Some u)"
    using step_jobsLeft_locked [OF lock] by blast
  have 5: "pcs s ! t = Wait_Blocked \<and> jobsLeft s = 0 \<longrightarrow>
            (\<exists>u r. u < length (pcs s) \<and> pcs s ! u = Fin_Dec 0 r \<and>
               step (Go u) s =
                 Some (Inr (return_to u r (s\<lparr>pcs := map wake_waiter (pcs s)\<rparr>))) \<and>
               pcs (return_to u r (s\<lparr>pcs := map wake_waiter (pcs s)\<rparr>)) ! t = Wait_Woken)"
    using notify_pending [OF w assms(2)] by blast
  have 6: "pcs s ! t = Idle \<and> jobsLeftMutex s = None \<longrightarrow>
            step (Call t WaitAll) s =
              Some (Inr (s\<lparr>jobsLeftMutex := Some t, pcs := (pcs s)[t := Wait_L]\<rparr>))"
    using waitAll_enter [OF assms(2)] by blast
  have 7: "pcs s ! t = Wait_Blocked \<longrightarrow>
            step (Go t) s = None \<and>
            step (Spurious t) s = Some (Inr (s\<lparr>pcs := (pcs s)[t := Wait_Woken]\<rparr>))"
    using waitAll_blocked [OF assms(2)] by blast
  have 8: "pcs s ! t = Wait_Woken \<longrightarrow>
            (jobsLeftMutex s = None \<longrightarrow>
               step (Go t) s =
                 Some (Inr (s\<lparr>jobsLeftMutex := Some t, pcs := (pcs s)[t := Wait_Re]\<rparr>))) \<and>
            (jobsLeftMutex s \<noteq> None \<longrightarrow> step (Go t) s = None)"
    using waitAll_relock [OF assms(2)] by blast
  have 9: "pcs s ! t = Wait_Blocked \<and> jobsLeft s = 0 \<and> jobsLeftMutex s = None \<longrightarrow>
            (\<exists>u < length (pcs s). \<exists>s''. run [Go u, Go t, Go t] s = Some (Inr s'') \<and>
               pcs s'' ! t = Idle \<and> jobsLeft s'' = 0)"
    using waiter_released [OF w assms(2)] by blast
  have 10: "run es s = Some (Inr s') \<and> (\<forall>e\<in>set es. is_progress e) \<longrightarrow>
            length es \<le> potential s"
    using run_bounded [of es s s'] by auto
  have 11: "quiescent s \<and> in_waitAll (pcs s ! t) \<longrightarrow>
            pcs s ! t = Wait_Blocked \<and> 0 < jobsLeft s"
    using at_rest_waiter [OF inv fl _ assms(2)] by blast
  have 12: "quiescent s \<and> \<not> bailout s \<and> 0 < n \<longrightarrow>
            jobsLeft s = 0 \<and> \<not> in_waitAll (pcs s ! t)"
  proof (intro impI, elim conjE)
    assume q: "quiescent s" "\<not> bailout s" "0 < n"
    from reachable_length [OF assms(1)] q(3) have "0 < threadCount s"
      by (simp add: ConcurrentQueue_def)
    from at_rest_running(2) [OF inv fl q(1,2) this] at_rest_waiter [OF inv fl q(1) assms(2)]
    show "jobsLeft s = 0 \<and> \<not> in_waitAll (pcs s ! t)" by auto
  qed
  from 1 2 3 4 5 6 7 8 9 10 11 12 show ?thesis by blast
qed

lemma run_worker_waiting:
  "run [Go 0, Go 0] (ConcurrentQueue 1 1) = Some (Inr worker_waiting)"
  by (simp add: ConcurrentQueue_def worker_waiting_def step_defs INT_MAX_def)

lemma run_waiter_stuck:
  "run [Call 0 (Enqueue (Job 7 5 False)), Go 0, Go 0, Go 0, Go 0, Call 1 WaitAll, Go 1]
     (ConcurrentQueue 0 2) = Some (Inr waiter_stuck)"
  by (simp add: ConcurrentQueue_def waiter_stuck_def step_defs INT_MAX_def numeral_2_eq_2)

lemma quiescent_worker_waiting: "quiescent worker_waiting"
  by (simp add: quiescent_def worker_waiting_def All_less_Suc)

lemma quiescent_waiter_stuck: "quiescent waiter_stuck"
  by (simp add: quiescent_def waiter_stuck_def All_less_Suc)

theorem waitAll_barrier_witness:
  "reachable (ConcurrentQueue 1 1) (ConcurrentQueue 1 1) \<and>
   1 < length (pcs (ConcurrentQueue 1 1)) \<and> pcs (ConcurrentQueue 1 1) ! 1 = Idle \<and>
   jobsLeftMutex (ConcurrentQueue 1 1) = None \<and> jobsLeft (ConcurrentQueue 1 1) = 0 \<and>
   run [Call 1 WaitAll, Go 1] (ConcurrentQueue 1 1) = Some (Inr (ConcurrentQueue 1 1)) \<and>
   reachable (ConcurrentQueue 1 2) waiter_blocked \<and> 2 < length (pcs waiter_blocked) \<and>
   pcs waiter_blocked ! 2 = Wait_Blocked \<and> jobsLeft waiter_blocked = 0 \<and>
   jobsLeftMutex waiter_blocked = None \<and>
   pcs waiter_blocked ! 0 = Fin_Dec 0 RetWorker \<and>
   step (Go 2) waiter_blocked = None \<and>
   step (Go 0) waiter_blocked =
     Some (Inr (waiter_blocked\<lparr>pcs := [W_Top, Idle, Wait_Woken]\<rparr>)) \<and>
   (\<exists>u < length (pcs waiter_blocked). \<exists>s''.
      run [Go u, Go 2, Go 2] waiter_blocked = Some (Inr s'') \<and> pcs s'' ! 2 = Idle \<and>
      jobsLeft s'' = 0) \<and>
   run [Go 0, Go 2, Go 2] waiter_blocked =
     Some (Inr (waiter_blocked\<lparr>pcs := [W_Top, Idle, Idle]\<rparr>)) \<and>
   list_all is_progress [Go 0, Go 2, Go 2] \<and>
   length [Go 0, Go 2, Go 2] \<le> potential waiter_blocked \<and>
   reachable (ConcurrentQueue 0 2) waiter_stuck \<and> 1 < length (pcs waiter_stuck) \<and>
   quiescent waiter_stuck \<and> in_waitAll (pcs waiter_stuck ! 1) \<and>
   pcs waiter_stuck ! 1 = Wait_Blocked \<and> 0 < jobsLeft waiter_stuck \<and>
   reachable (ConcurrentQueue 1 1) worker_waiting \<and> 1 < length (pcs worker_waiting) \<and>
   quiescent worker_waiting \<and> \<not> bailout worker_waiting \<and> (0::nat) < 1 \<and>
   jobsLeft worker_waiting = 0 \<and> \<not> in_waitAll (pcs worker_waiting ! 1)"
proof -
  have r: "reachable (ConcurrentQueue 1 1) (ConcurrentQueue 1 1)"
    by (rule reachable.start)
  have l: "1 < length (pcs (ConcurrentQueue 1 1))" "pcs (ConcurrentQueue 1 1) ! 1 = Idle"
    "jobsLeftMutex (ConcurrentQueue 1 1) = None" "jobsLeft (ConcurrentQueue 1 1) = 0"
    by (simp_all add: ConcurrentQueue_def)
  from waitAll_barrier [where e = "Go 0" and es = "[]" and s' = "ConcurrentQueue 1 1",
      OF r l(1)]
  have "pcs (ConcurrentQueue 1 1) ! 1 = Idle \<and> jobsLeftMutex (ConcurrentQueue 1 1) = None \<and>
      jobsLeft (ConcurrentQueue 1 1) = 0 \<longrightarrow>
      run [Call 1 WaitAll, Go 1] (ConcurrentQueue 1 1) = Some (Inr (ConcurrentQueue 1 1))"
    by (elim conjE)
  with l
  have a: "run [Call 1 WaitAll, Go 1] (ConcurrentQueue 1 1) = Some (Inr (ConcurrentQueue 1 1))"
    by simp
  have r2: "reachable (ConcurrentQueue 1 2) waiter_blocked"
    by (rule run_reachable [OF run_waiter_blocked])
  have l2: "2 < length (pcs waiter_blocked)" "pcs waiter_blocked ! 2 = Wait_Blocked"
    "jobsLeft waiter_blocked = 0" "jobsLeftMutex waiter_blocked = None"
    "pcs waiter_blocked ! 0 = Fin_Dec 0 RetWorker"
    by (simp_all add: waiter_blocked_def)
  have b3: "run [Go 0, Go 2, Go 2] waiter_blocked =
     Some (Inr (waiter_blocked\<lparr>pcs := [W_Top, Idle, Idle]\<rparr>))"
    by (simp add: waiter_blocked_def step_defs return_to_def)
  have b4: "\<forall>e \<in> set [Go 0, Go 2, Go 2]. is_progress e" by simp
  have b4': "list_all is_progress [Go 0, Go 2, Go 2]" by simp
  note w2 = waitAll_barrier [where e = "Go 0" and es = "[Go 0, Go 2, Go 2]"
      and s' = "waiter_blocked\<lparr>pcs := [W_Top, Idle, Idle]\<rparr>", OF r2 l2(1)]
  from w2 have "pcs waiter_blocked ! 2 = Wait_Blocked \<longrightarrow>
      step (Go 2) waiter_blocked = None \<and>
      step (Spurious 2) waiter_blocked =
        Some (Inr (waiter_blocked\<lparr>pcs := (pcs waiter_blocked)[2 := Wait_Woken]\<rparr>))"
    by (elim conjE)
  with l2 have b0: "step (Go 2) waiter_blocked = None" by simp
  from w2 have "pcs waiter_blocked ! 2 = Wait_Blocked \<and> jobsLeft waiter_blocked = 0 \<longrightarrow>
      (\<exists>u r. u < length (pcs waiter_blocked) \<and> pcs waiter_blocked ! u = Fin_Dec 0 r \<and>
         step (Go u) waiter_blocked =
           Some (Inr (return_to u r
             (waiter_blocked\<lparr>pcs := map wake_waiter (pcs waiter_blocked)\<rparr>))) \<and>
         pcs (return_to u r (waiter_blocked\<lparr>pcs := map wake_waiter (pcs waiter_blocked)\<rparr>)) ! 2
           = Wait_Woken)"
    by (elim conjE)
  with l2
  obtain u r where u: "u < length (pcs waiter_blocked)" "pcs waiter_blocked ! u = Fin_Dec 0 r"
    "step (Go u) waiter_blocked =
       Some (Inr (return_to u r (waiter_blocked\<lparr>pcs := map wake_waiter (pcs waiter_blocked)\<rparr>)))"
    by blast
  from u(1,2) have "u = 0 \<and> r = RetWorker"
    by (auto simp add: waiter_blocked_def nth_Cons split: nat.splits)
  with u(3) have b1: "step (Go 0) waiter_blocked =
     Some (Inr (waiter_blocked\<lparr>pcs := [W_Top, Idle, Wait_Woken]\<rparr>))"
    by (simp add: return_to_def waiter_blocked_def)
  from w2 have "pcs waiter_blocked ! 2 = Wait_Blocked \<and> jobsLeft waiter_blocked = 0 \<and>
      jobsLeftMutex waiter_blocked = None \<longrightarrow>
      (\<exists>u < length (pcs waiter_blocked). \<exists>s''.
        run [Go u, Go 2, Go 2] waiter_blocked = Some (Inr s'') \<and> pcs s'' ! 2 = Idle \<and>
        jobsLeft s'' = 0)"
    by (elim conjE)
  with l2 have b2: "\<exists>u < length (pcs waiter_blocked). \<exists>s''.
      run [Go u, Go 2, Go 2] waiter_blocked = Some (Inr s'') \<and> pcs s'' ! 2 = Idle \<and>
      jobsLeft s'' = 0"
    by simp
  from w2 have "run [Go 0, Go 2, Go 2] waiter_blocked =
        Some (Inr (waiter_blocked\<lparr>pcs := [W_Top, Idle, Idle]\<rparr>)) \<and>
      (\<forall>e \<in> set [Go 0, Go 2, Go 2]. is_progress e) \<longrightarrow>
      length [Go 0, Go 2, Go 2] \<le> potential waiter_blocked"
    by (elim conjE)
  with b3 b4 have b5: "length [Go 0, Go 2, Go 2] \<le> potential waiter_blocked" by blast
  have r3: "reachable (ConcurrentQueue 0 2) waiter_stuck"
    by (rule run_reachable [OF run_waiter_stuck])
  have l3: "1 < length (pcs waiter_stuck)" "in_waitAll (pcs waiter_stuck ! 1)"
    by (simp_all add: waiter_stuck_def)
  note q3 = quiescent_waiter_stuck
  from waitAll_barrier [where e = "Go 0" and es = "[]" and s' = waiter_stuck, OF r3 l3(1)]
  have "quiescent waiter_stuck \<and> in_waitAll (pcs waiter_stuck ! 1) \<longrightarrow>
      pcs waiter_stuck ! 1 = Wait_Blocked \<and> 0 < jobsLeft waiter_stuck"
    by (elim conjE)
  with q3 l3
  have c: "pcs waiter_stuck ! 1 = Wait_Blocked" "0 < jobsLeft waiter_stuck" by simp_all
  have r4: "reachable (ConcurrentQueue 1 1) worker_waiting"
    by (rule run_reachable [OF run_worker_waiting])
  have l4: "1 < length (pcs worker_waiting)" "\<not> bailout worker_waiting" "(0::nat) < 1"
    by (simp_all add: worker_waiting_def)
  note q4 = quiescent_worker_waiting
  from waitAll_barrier [where e = "Go 0" and es = "[]" and s' = worker_waiting, OF r4 l4(1)]
  have "quiescent worker_waiting \<and> \<not> bailout worker_waiting \<and> (0::nat) < 1 \<longrightarrow>
      jobsLeft worker_waiting = 0 \<and> \<not> in_waitAll (pcs worker_waiting ! 1)"
    by (elim conjE)
  with q4 l4
  have d: "jobsLeft worker_waiting = 0" "\<not> in_waitAll (pcs worker_waiting ! 1)"
    by simp_all
  show ?thesis
    by (intro conjI) (fact r l a r2 l2 b0 b1 b2 b3 b4' b5 r3 l3 q3 c r4 l4 q4 d)+
qed

subsection \<open>\<open>joinAll\<close>\<close>

lemma joinAll_enter:
  assumes "t < length (pcs s)" "pcs s ! t = Idle" "queueMutex s = None"
  shows "step (Call t JoinAll) s =
    Some (Inr (s\<lparr>queueMutex := Some t, pcs := (pcs s)[t := Join_L]\<rparr>))"
  using assms by (simp add: step_defs)

lemma joinAll_flag_step:
  assumes "t < length (pcs s)" "pcs s ! t = Join_L"
  shows "bailout s \<longrightarrow>
      step (Go t) s = Some (Inr (s\<lparr>queueMutex := None, pcs := (pcs s)[t := Idle]\<rparr>))"
    and "\<not> bailout s \<longrightarrow>
      step (Go t) s =
        Some (Inr (s\<lparr>bailout := True, queueMutex := None, pcs := (pcs s)[t := Join_Flagged]\<rparr>))"
  using assms by (simp_all add: step_defs)

lemma joinAll_join_step:
  assumes "t < length (pcs s)" "pcs s ! t = Join_Joining i"
  shows "i < threadCount s \<and> pcs s ! i = W_Done \<longrightarrow>
      step (Go t) s = Some (Inr (s\<lparr>pcs := (pcs s)[t := Join_Joining (Suc i)]\<rparr>))"
    and "i < threadCount s \<and> pcs s ! i \<noteq> W_Done \<longrightarrow> step (Go t) s = None"
    and "\<not> i < threadCount s \<longrightarrow>
      step (Go t) s = Some (Inr (s\<lparr>pcs := (pcs s)[t := Idle]\<rparr>))"
  using assms by (simp_all add: step_defs)

lemma joinAll_joins_all:
  assumes "t < length (pcs s)" "pcs s ! t = Join_Joining i"
    and "\<forall>k < threadCount s. pcs s ! k = W_Done"
  shows "run (replicate (Suc (threadCount s - i)) (Go t)) s =
    Some (Inr (s\<lparr>pcs := (pcs s)[t := Idle]\<rparr>))"
  using assms
proof (induction "threadCount s - i" arbitrary: s i)
  case 0
  then have "\<not> i < threadCount s" by simp
  with 0 joinAll_join_step(3) [OF "0.prems"(1,2)] show ?case by simp
next
  case (Suc d)
  then have i: "i < threadCount s" by simp
  with Suc.prems have dn: "pcs s ! i = W_Done" by simp
  define s1 where "s1 = s\<lparr>pcs := (pcs s)[t := Join_Joining (Suc i)]\<rparr>"
  from i dn joinAll_join_step(1) [OF Suc.prems(1,2)]
  have st: "step (Go t) s = Some (Inr s1)" by (simp add: s1_def)
  have d: "d = threadCount s1 - Suc i" using Suc(2) by (simp add: s1_def)
  have t1: "t < length (pcs s1)" "pcs s1 ! t = Join_Joining (Suc i)"
    using Suc.prems(1) by (simp_all add: s1_def)
  have all1: "\<forall>k < threadCount s1. pcs s1 ! k = W_Done"
  proof (intro allI impI)
    fix k assume "k < threadCount s1"
    then have k: "k < threadCount s" by (simp add: s1_def)
    with Suc.prems(3) have kd: "pcs s ! k = W_Done" by simp
    with Suc.prems(2) have "k \<noteq> t" by auto
    with kd show "pcs s1 ! k = W_Done" by (simp add: s1_def)
  qed
  from Suc(1) [OF d t1 all1]
  have "run (replicate (Suc (threadCount s1 - Suc i)) (Go t)) s1 =
    Some (Inr (s1\<lparr>pcs := (pcs s1)[t := Idle]\<rparr>))" .
  moreover have "s1\<lparr>pcs := (pcs s1)[t := Idle]\<rparr> = s\<lparr>pcs := (pcs s)[t := Idle]\<rparr>"
    by (simp add: s1_def)
  moreover have "Suc (threadCount s - i) = Suc (Suc (threadCount s1 - Suc i))"
    using i by (simp add: s1_def)
  ultimately show ?case using st by simp
qed

lemma at_rest_torn_down:
  assumes inv: "pool_inv s" and fl: "flag_inv s" and q: "quiescent s" and b: "bailout s"
    and t: "t < length (pcs s)"
  shows "(\<forall>k < threadCount s. pcs s ! k = W_Done)"
    and "pcs s ! t \<noteq> Join_L \<and> pcs s ! t \<noteq> Join_Flagged \<and> (\<forall>i. pcs s ! t \<noteq> Join_Joining i)"
proof -
  from at_rest_workers [OF inv fl q] b show "\<forall>k < threadCount s. pcs s ! k = W_Done"
    by simp
  from at_rest(3) [OF inv fl q] t have "resting (pcs s ! t)" by blast
  then show "pcs s ! t \<noteq> Join_L \<and> pcs s ! t \<noteq> Join_Flagged \<and>
      (\<forall>i. pcs s ! t \<noteq> Join_Joining i)"
    by (cases "pcs s ! t") simp_all
qed

text \<open>
  C6. \<open>bailout\<close> is never reset. The only step that changes it is the step of
  \<open>joinAll\<close> that sets it, taken by the thread that holds \<open>queueMutex\<close>. The call
  takes \<open>queueMutex\<close>; if it finds \<open>bailout\<close> set it releases the mutex and returns,
  leaving the state as it was (the destructor, lines 29-32, is this call). The first
  call sets the flag, releases the mutex and then wakes every worker blocked on
  \<open>jobAvailableVar\<close>. Its loop of joins, at index \<open>i\<close>, waits as long as worker \<open>i\<close>
  has not ended, moves to \<open>i + 1\<close> when it has, and returns when \<open>i\<close> has passed the
  last worker; once all workers have ended the loop runs through without waiting, and
  it returns only when every worker has ended. Without new calls the threads can take
  at most \<open>potential s\<close> steps and some run leads to a state at rest (or the process
  ends); in a state at rest with \<open>bailout\<close> set every worker has ended and no thread
  is inside \<open>joinAll\<close>.
\<close>

theorem teardown_idempotent:
  assumes "reachable (ConcurrentQueue n m) s" and "t < length (pcs s)"
  shows "(bailout s \<and> reachable s s' \<longrightarrow> bailout s') \<and>
         (step e s = Some (Inr s') \<and> bailout s' \<noteq> bailout s \<longrightarrow>
            \<not> bailout s \<and> bailout s' \<and>
            (\<exists>u. e = Go u \<and> pcs s ! u = Join_L \<and> queueMutex s = Some u \<and>
               pcs s' ! u = Join_Flagged \<and> queueMutex s' = None)) \<and>
         (pcs s ! t = Idle \<and> queueMutex s = None \<and> \<not> bailout s \<longrightarrow>
            run [Call t JoinAll, Go t, Go t] s =
              Some (Inr (s\<lparr>bailout := True,
                           pcs := (map wake_worker (pcs s))[t := Join_Joining 0]\<rparr>))) \<and>
         (pcs s ! t = Join_Flagged \<longrightarrow>
            step (Go t) s =
              Some (Inr (s\<lparr>pcs := (map wake_worker (pcs s))[t := Join_Joining 0]\<rparr>)) \<and>
            W_Blocked \<notin> set ((map wake_worker (pcs s))[t := Join_Joining 0])) \<and>
         (\<forall>i. pcs s ! t = Join_Joining i \<and> step (Go t) s = Some (Inr s') \<and>
              pcs s' ! t = Idle \<longrightarrow>
            (\<forall>k < threadCount s'. pcs s' ! k = W_Done)) \<and>
         (pcs s ! t = Idle \<and> queueMutex s = None \<and> bailout s \<longrightarrow>
            run [Call t JoinAll, Go t] s = Some (Inr s)) \<and>
         (pcs s ! t = Idle \<and> queueMutex s = None \<longrightarrow>
            step (Call t JoinAll) s =
              Some (Inr (s\<lparr>queueMutex := Some t, pcs := (pcs s)[t := Join_L]\<rparr>))) \<and>
         (pcs s ! t = Join_L \<longrightarrow>
            queueMutex s = Some t \<and>
            (bailout s \<longrightarrow>
               step (Go t) s =
                 Some (Inr (s\<lparr>queueMutex := None, pcs := (pcs s)[t := Idle]\<rparr>))) \<and>
            (\<not> bailout s \<longrightarrow>
               step (Go t) s =
                 Some (Inr (s\<lparr>bailout := True, queueMutex := None,
                              pcs := (pcs s)[t := Join_Flagged]\<rparr>)))) \<and>
         (\<forall>i. pcs s ! t = Join_Joining i \<longrightarrow>
            bailout s \<and>
            (i < threadCount s \<and> pcs s ! i = W_Done \<longrightarrow>
               step (Go t) s =
                 Some (Inr (s\<lparr>pcs := (pcs s)[t := Join_Joining (Suc i)]\<rparr>))) \<and>
            (i < threadCount s \<and> pcs s ! i \<noteq> W_Done \<longrightarrow> step (Go t) s = None) \<and>
            (\<not> i < threadCount s \<longrightarrow>
               step (Go t) s = Some (Inr (s\<lparr>pcs := (pcs s)[t := Idle]\<rparr>))) \<and>
            ((\<forall>k < threadCount s. pcs s ! k = W_Done) \<longrightarrow>
               run (replicate (Suc (threadCount s - i)) (Go t)) s =
                 Some (Inr (s\<lparr>pcs := (pcs s)[t := Idle]\<rparr>)))) \<and>
         (run es s = Some (Inr s') \<and> (\<forall>e\<in>set es. is_progress e) \<longrightarrow>
            length es \<le> potential s) \<and>
         (\<exists>es. (\<forall>e\<in>set es. is_progress e) \<and>
            ((\<exists>s''. run es s = Some (Inr s'') \<and> quiescent s'') \<or>
             (\<exists>err. run es s = Some (Inl err)))) \<and>
         (quiescent s \<and> bailout s \<longrightarrow>
            (\<forall>k < threadCount s. pcs s ! k = W_Done) \<and>
            pcs s ! t \<noteq> Join_L \<and> pcs s ! t \<noteq> Join_Flagged \<and>
            (\<forall>i. pcs s ! t \<noteq> Join_Joining i))"
proof -
  from reachable_inv [OF assms(1)] have inv: "pool_inv s" .
  then have lock: "lock_inv s" and j: "joining_inv s"
    by (simp_all add: pool_inv_def)
  note fl = reachable_flag_inv [OF assms(1)]
  have 1: "bailout s \<and> reachable s s' \<longrightarrow> bailout s'"
    using bailout_stays by blast
  have 2: "step e s = Some (Inr s') \<and> bailout s' \<noteq> bailout s \<longrightarrow>
            \<not> bailout s \<and> bailout s' \<and>
            (\<exists>u. e = Go u \<and> pcs s ! u = Join_L \<and> queueMutex s = Some u \<and>
               pcs s' ! u = Join_Flagged \<and> queueMutex s' = None)"
  proof (intro impI, elim conjE)
    assume st: "step e s = Some (Inr s')" and ne: "bailout s' \<noteq> bailout s"
    from step_bailout [OF st] ne obtain u where u: "e = Go u" "u < length (pcs s)"
      "pcs s ! u = Join_L" "\<not> bailout s" "bailout s'" "pcs s' ! u = Join_Flagged"
      "queueMutex s' = None"
      by blast
    from u(3) lock_inv_held(1) [OF lock u(2)] have "queueMutex s = Some u" by simp
    with u show "\<not> bailout s \<and> bailout s' \<and>
            (\<exists>u. e = Go u \<and> pcs s ! u = Join_L \<and> queueMutex s = Some u \<and>
               pcs s' ! u = Join_Flagged \<and> queueMutex s' = None)"
      by blast
  qed
  have 3: "pcs s ! t = Idle \<and> queueMutex s = None \<and> \<not> bailout s \<longrightarrow>
            run [Call t JoinAll, Go t, Go t] s =
              Some (Inr (s\<lparr>bailout := True,
                           pcs := (map wake_worker (pcs s))[t := Join_Joining 0]\<rparr>))"
    using joinAll_first [OF assms(2)] by blast
  have 4: "pcs s ! t = Join_Flagged \<longrightarrow>
            step (Go t) s =
              Some (Inr (s\<lparr>pcs := (map wake_worker (pcs s))[t := Join_Joining 0]\<rparr>)) \<and>
            W_Blocked \<notin> set ((map wake_worker (pcs s))[t := Join_Joining 0])"
    using joinAll_notify_wakes [OF assms(2)] by blast
  have 5: "\<forall>i. pcs s ! t = Join_Joining i \<and> step (Go t) s = Some (Inr s') \<and>
              pcs s' ! t = Idle \<longrightarrow>
            (\<forall>k < threadCount s'. pcs s' ! k = W_Done)"
    using joinAll_returns [OF j assms(2)] by blast
  have 6: "pcs s ! t = Idle \<and> queueMutex s = None \<and> bailout s \<longrightarrow>
            run [Call t JoinAll, Go t] s = Some (Inr s)"
    using joinAll_again [OF assms(2)] by blast
  have 7: "pcs s ! t = Idle \<and> queueMutex s = None \<longrightarrow>
            step (Call t JoinAll) s =
              Some (Inr (s\<lparr>queueMutex := Some t, pcs := (pcs s)[t := Join_L]\<rparr>))"
    using joinAll_enter [OF assms(2)] by blast
  have 8: "pcs s ! t = Join_L \<longrightarrow>
            queueMutex s = Some t \<and>
            (bailout s \<longrightarrow>
               step (Go t) s =
                 Some (Inr (s\<lparr>queueMutex := None, pcs := (pcs s)[t := Idle]\<rparr>))) \<and>
            (\<not> bailout s \<longrightarrow>
               step (Go t) s =
                 Some (Inr (s\<lparr>bailout := True, queueMutex := None,
                              pcs := (pcs s)[t := Join_Flagged]\<rparr>)))"
  proof
    assume pc: "pcs s ! t = Join_L"
    with lock_inv_held(1) [OF lock assms(2)] have "queueMutex s = Some t" by simp
    with joinAll_flag_step [OF assms(2) pc]
    show "queueMutex s = Some t \<and>
            (bailout s \<longrightarrow>
               step (Go t) s =
                 Some (Inr (s\<lparr>queueMutex := None, pcs := (pcs s)[t := Idle]\<rparr>))) \<and>
            (\<not> bailout s \<longrightarrow>
               step (Go t) s =
                 Some (Inr (s\<lparr>bailout := True, queueMutex := None,
                              pcs := (pcs s)[t := Join_Flagged]\<rparr>)))"
      by blast
  qed
  have 9: "\<forall>i. pcs s ! t = Join_Joining i \<longrightarrow>
            bailout s \<and>
            (i < threadCount s \<and> pcs s ! i = W_Done \<longrightarrow>
               step (Go t) s =
                 Some (Inr (s\<lparr>pcs := (pcs s)[t := Join_Joining (Suc i)]\<rparr>))) \<and>
            (i < threadCount s \<and> pcs s ! i \<noteq> W_Done \<longrightarrow> step (Go t) s = None) \<and>
            (\<not> i < threadCount s \<longrightarrow>
               step (Go t) s = Some (Inr (s\<lparr>pcs := (pcs s)[t := Idle]\<rparr>))) \<and>
            ((\<forall>k < threadCount s. pcs s ! k = W_Done) \<longrightarrow>
               run (replicate (Suc (threadCount s - i)) (Go t)) s =
                 Some (Inr (s\<lparr>pcs := (pcs s)[t := Idle]\<rparr>)))"
  proof (intro allI impI)
    fix i assume pc: "pcs s ! t = Join_Joining i"
    with nth_mem [OF assms(2)] have "\<exists>p\<in>set (pcs s). joiner p"
      by (intro bexI [of _ "Join_Joining i"]) simp_all
    with fl have b: "bailout s" by (simp add: flag_inv_def)
    with joinAll_join_step [OF assms(2) pc] joinAll_joins_all [OF assms(2) pc]
    show "bailout s \<and>
            (i < threadCount s \<and> pcs s ! i = W_Done \<longrightarrow>
               step (Go t) s =
                 Some (Inr (s\<lparr>pcs := (pcs s)[t := Join_Joining (Suc i)]\<rparr>))) \<and>
            (i < threadCount s \<and> pcs s ! i \<noteq> W_Done \<longrightarrow> step (Go t) s = None) \<and>
            (\<not> i < threadCount s \<longrightarrow>
               step (Go t) s = Some (Inr (s\<lparr>pcs := (pcs s)[t := Idle]\<rparr>))) \<and>
            ((\<forall>k < threadCount s. pcs s ! k = W_Done) \<longrightarrow>
               run (replicate (Suc (threadCount s - i)) (Go t)) s =
                 Some (Inr (s\<lparr>pcs := (pcs s)[t := Idle]\<rparr>)))"
      by blast
  qed
  have 10: "run es s = Some (Inr s') \<and> (\<forall>e\<in>set es. is_progress e) \<longrightarrow>
            length es \<le> potential s"
    using run_bounded [of es s s'] by auto
  have 11: "\<exists>es. (\<forall>e\<in>set es. is_progress e) \<and>
            ((\<exists>s''. run es s = Some (Inr s'') \<and> quiescent s'') \<or>
             (\<exists>err. run es s = Some (Inl err)))"
    using comes_to_rest [of s] by blast
  have 12: "quiescent s \<and> bailout s \<longrightarrow>
            (\<forall>k < threadCount s. pcs s ! k = W_Done) \<and>
            pcs s ! t \<noteq> Join_L \<and> pcs s ! t \<noteq> Join_Flagged \<and>
            (\<forall>i. pcs s ! t \<noteq> Join_Joining i)"
    using at_rest_torn_down [OF inv fl _ _ assms(2)] by blast
  show ?thesis
    by (intro conjI) (fact 1 2 3 4 5 6 7 8 9 10 11 12)+
qed

lemma run_two_waiting:
  "run [Go 0, Go 0, Go 1, Go 1] (ConcurrentQueue 2 1) = Some (Inr two_waiting)"
  by (simp add: ConcurrentQueue_def two_waiting_def two_joining_def step_defs numeral_2_eq_2)

lemma run_two_ended:
  "run [Go 0, Go 0, Go 1, Go 1, Call 2 JoinAll, Go 2, Go 2, Go 0, Go 0, Go 1, Go 1]
     (ConcurrentQueue 2 1) = Some (Inr two_ended)"
  by (simp add: ConcurrentQueue_def two_ended_def two_joining_def step_defs numeral_2_eq_2)

lemma run_two_torn_down:
  "run [Go 2, Go 2, Go 2] two_ended = Some (Inr two_torn_down)"
  by (simp add: two_ended_def two_torn_down_def two_joining_def step_defs numeral_2_eq_2)

lemma quiescent_two_torn_down: "quiescent two_torn_down"
  by (simp add: quiescent_def two_torn_down_def two_joining_def All_less_Suc)

theorem teardown_idempotent_witness:
  "reachable (ConcurrentQueue 2 1) two_waiting \<and> 2 < length (pcs two_waiting) \<and>
   pcs two_waiting ! 2 = Idle \<and> queueMutex two_waiting = None \<and> \<not> bailout two_waiting \<and>
   run [Call 2 JoinAll, Go 2, Go 2] two_waiting = Some (Inr two_joining) \<and>
   reachable (ConcurrentQueue 2 1) two_joining \<and> 2 < length (pcs two_joining) \<and>
   pcs two_joining ! 2 = Join_Joining 0 \<and> 0 < threadCount two_joining \<and>
   pcs two_joining ! 0 \<noteq> W_Done \<and> step (Go 2) two_joining = None \<and>
   reachable (ConcurrentQueue 2 1) two_ended \<and> 2 < length (pcs two_ended) \<and>
   pcs two_ended ! 2 = Join_Joining 0 \<and> threadCount two_ended = 2 \<and>
   pcs two_ended ! 0 = W_Done \<and> pcs two_ended ! 1 = W_Done \<and>
   run (replicate (Suc (threadCount two_ended - 0)) (Go 2)) two_ended =
     Some (Inr two_torn_down) \<and>
   list_all is_progress (replicate (Suc (threadCount two_ended - 0)) (Go 2)) \<and>
   length (replicate (Suc (threadCount two_ended - 0)) (Go 2)) \<le> potential two_ended \<and>
   reachable (ConcurrentQueue 2 1) two_torn_down \<and> 2 < length (pcs two_torn_down) \<and>
   quiescent two_torn_down \<and> bailout two_torn_down \<and>
   threadCount two_torn_down = 2 \<and>
   pcs two_torn_down ! 0 = W_Done \<and> pcs two_torn_down ! 1 = W_Done \<and>
   pcs two_torn_down ! 2 = Idle \<and> queueMutex two_torn_down = None \<and>
   run [Call 2 JoinAll, Go 2] two_torn_down = Some (Inr two_torn_down)"
proof -
  have r1: "reachable (ConcurrentQueue 2 1) two_waiting"
    by (rule run_reachable [OF run_two_waiting])
  have l1: "2 < length (pcs two_waiting)" "pcs two_waiting ! 2 = Idle"
    "queueMutex two_waiting = None" "\<not> bailout two_waiting"
    by (simp_all add: two_waiting_def two_joining_def)
  have e1: "two_waiting\<lparr>bailout := True,
      pcs := (map wake_worker (pcs two_waiting))[2 := Join_Joining 0]\<rparr> = two_joining"
    by (simp add: two_waiting_def two_joining_def)
  from teardown_idempotent [where e = "Go 0" and es = "[]" and s' = two_waiting, OF r1 l1(1)]
  have "pcs two_waiting ! 2 = Idle \<and> queueMutex two_waiting = None \<and> \<not> bailout two_waiting \<longrightarrow>
      run [Call 2 JoinAll, Go 2, Go 2] two_waiting =
        Some (Inr (two_waiting\<lparr>bailout := True,
          pcs := (map wake_worker (pcs two_waiting))[2 := Join_Joining 0]\<rparr>))"
    by (elim conjE)
  with l1 e1
  have a: "run [Call 2 JoinAll, Go 2, Go 2] two_waiting = Some (Inr two_joining)"
    by simp
  from r1 run_reachable [OF a] have r2: "reachable (ConcurrentQueue 2 1) two_joining"
    by (rule reachable_trans)
  have l2: "2 < length (pcs two_joining)" "pcs two_joining ! 2 = Join_Joining 0"
    "0 < threadCount two_joining" "pcs two_joining ! 0 \<noteq> W_Done"
    by (simp_all add: two_joining_def)
  from teardown_idempotent [where e = "Go 0" and es = "[]" and s' = two_joining, OF r2 l2(1)]
  have "\<forall>i. pcs two_joining ! 2 = Join_Joining i \<longrightarrow>
      bailout two_joining \<and>
      (i < threadCount two_joining \<and> pcs two_joining ! i = W_Done \<longrightarrow>
         step (Go 2) two_joining =
           Some (Inr (two_joining\<lparr>pcs := (pcs two_joining)[2 := Join_Joining (Suc i)]\<rparr>))) \<and>
      (i < threadCount two_joining \<and> pcs two_joining ! i \<noteq> W_Done \<longrightarrow>
         step (Go 2) two_joining = None) \<and>
      (\<not> i < threadCount two_joining \<longrightarrow>
         step (Go 2) two_joining =
           Some (Inr (two_joining\<lparr>pcs := (pcs two_joining)[2 := Idle]\<rparr>))) \<and>
      ((\<forall>k < threadCount two_joining. pcs two_joining ! k = W_Done) \<longrightarrow>
         run (replicate (Suc (threadCount two_joining - i)) (Go 2)) two_joining =
           Some (Inr (two_joining\<lparr>pcs := (pcs two_joining)[2 := Idle]\<rparr>)))"
    by (elim conjE)
  with l2 have b: "step (Go 2) two_joining = None" by blast
  have r3: "reachable (ConcurrentQueue 2 1) two_ended"
    by (rule run_reachable [OF run_two_ended])
  have l3: "2 < length (pcs two_ended)" "pcs two_ended ! 2 = Join_Joining 0"
    "\<forall>k < threadCount two_ended. pcs two_ended ! k = W_Done"
    by (simp_all add: two_ended_def two_joining_def All_less_Suc numeral_2_eq_2)
  have l3': "threadCount two_ended = 2" "pcs two_ended ! 0 = W_Done"
    "pcs two_ended ! 1 = W_Done"
    by (simp_all add: two_ended_def two_joining_def)
  have e3: "two_ended\<lparr>pcs := (pcs two_ended)[2 := Idle]\<rparr> = two_torn_down"
    by (simp add: two_ended_def two_torn_down_def two_joining_def)
  have p3: "\<forall>e \<in> set (replicate (Suc (threadCount two_ended - 0)) (Go 2)). is_progress e"
    by simp
  have p3': "list_all is_progress (replicate (Suc (threadCount two_ended - 0)) (Go 2))"
    by (simp add: list_all_iff)
  note t3 = teardown_idempotent [where e = "Go 0"
      and es = "replicate (Suc (threadCount two_ended - 0)) (Go 2)"
      and s' = two_torn_down, OF r3 l3(1)]
  from t3
  have "\<forall>i. pcs two_ended ! 2 = Join_Joining i \<longrightarrow>
      bailout two_ended \<and>
      (i < threadCount two_ended \<and> pcs two_ended ! i = W_Done \<longrightarrow>
         step (Go 2) two_ended =
           Some (Inr (two_ended\<lparr>pcs := (pcs two_ended)[2 := Join_Joining (Suc i)]\<rparr>))) \<and>
      (i < threadCount two_ended \<and> pcs two_ended ! i \<noteq> W_Done \<longrightarrow>
         step (Go 2) two_ended = None) \<and>
      (\<not> i < threadCount two_ended \<longrightarrow>
         step (Go 2) two_ended =
           Some (Inr (two_ended\<lparr>pcs := (pcs two_ended)[2 := Idle]\<rparr>))) \<and>
      ((\<forall>k < threadCount two_ended. pcs two_ended ! k = W_Done) \<longrightarrow>
         run (replicate (Suc (threadCount two_ended - i)) (Go 2)) two_ended =
           Some (Inr (two_ended\<lparr>pcs := (pcs two_ended)[2 := Idle]\<rparr>)))"
    by (elim conjE)
  with l3 e3
  have c: "run (replicate (Suc (threadCount two_ended - 0)) (Go 2)) two_ended =
      Some (Inr two_torn_down)"
    by metis
  from t3
  have "run (replicate (Suc (threadCount two_ended - 0)) (Go 2)) two_ended =
        Some (Inr two_torn_down) \<and>
      (\<forall>e \<in> set (replicate (Suc (threadCount two_ended - 0)) (Go 2)). is_progress e) \<longrightarrow>
      length (replicate (Suc (threadCount two_ended - 0)) (Go 2)) \<le> potential two_ended"
    by (elim conjE)
  with c p3
  have d: "length (replicate (Suc (threadCount two_ended - 0)) (Go 2)) \<le> potential two_ended"
    by blast
  from r3 run_reachable [OF c] have r4: "reachable (ConcurrentQueue 2 1) two_torn_down"
    by (rule reachable_trans)
  have l4: "2 < length (pcs two_torn_down)" "bailout two_torn_down"
    "pcs two_torn_down ! 2 = Idle" "queueMutex two_torn_down = None"
    by (simp_all add: two_torn_down_def two_joining_def)
  note q4 = quiescent_two_torn_down
  note t4 = teardown_idempotent [where e = "Go 0" and es = "[]" and s' = two_torn_down,
      OF r4 l4(1)]
  from t4
  have "quiescent two_torn_down \<and> bailout two_torn_down \<longrightarrow>
      (\<forall>k < threadCount two_torn_down. pcs two_torn_down ! k = W_Done) \<and>
      pcs two_torn_down ! 2 \<noteq> Join_L \<and> pcs two_torn_down ! 2 \<noteq> Join_Flagged \<and>
      (\<forall>i. pcs two_torn_down ! 2 \<noteq> Join_Joining i)"
    by (elim conjE)
  with q4 l4 have "\<forall>k < threadCount two_torn_down. pcs two_torn_down ! k = W_Done"
    by blast
  moreover have f0: "threadCount two_torn_down = 2"
    by (simp add: two_torn_down_def two_joining_def)
  ultimately have f: "pcs two_torn_down ! 0 = W_Done" "pcs two_torn_down ! 1 = W_Done"
    by simp_all
  from t4
  have "pcs two_torn_down ! 2 = Idle \<and> queueMutex two_torn_down = None \<and>
      bailout two_torn_down \<longrightarrow>
      run [Call 2 JoinAll, Go 2] two_torn_down = Some (Inr two_torn_down)"
    by (elim conjE)
  with l4 have g: "run [Call 2 JoinAll, Go 2] two_torn_down = Some (Inr two_torn_down)"
    by blast
  show ?thesis
    by (intro conjI) (fact r1 l1 a r2 l2 b r3 l3(1,2) l3' c p3' d r4 l4 q4 f0 f g)+
qed

subsection \<open>\<open>enqueue\<close> after \<open>bailout\<close>\<close>

lemma enqueue_steps:
  assumes "t < length (pcs s)"
  shows "pcs s ! t = Idle \<and> jobsLeftMutex s = None \<longrightarrow>
      step (Call t (Enqueue j)) s =
        Some (Inr (s\<lparr>jobsLeftMutex := Some t, pcs := (pcs s)[t := Enq_L1 j]\<rparr>))"
    and "pcs s ! t = Enq_L1 j \<and> jobsLeft s \<noteq> INT_MAX \<longrightarrow>
      step (Go t) s =
        Some (Inr (s\<lparr>jobsLeft := jobsLeft s + 1, jobsLeftMutex := None,
                     pcs := (pcs s)[t := Enq_Counted j]\<rparr>))"
    and "pcs s ! t = Enq_Counted j \<longrightarrow>
      (queueMutex s = None \<longrightarrow>
         step (Go t) s =
           Some (Inr (s\<lparr>queueMutex := Some t, pcs := (pcs s)[t := Enq_L2 j]\<rparr>))) \<and>
      (queueMutex s \<noteq> None \<longrightarrow> step (Go t) s = None)"
    and "pcs s ! t = Enq_L2 j \<longrightarrow>
      step (Go t) s =
        Some (Inr (s\<lparr>queue := queue s @ [j], queueMutex := None,
                     pcs := (pcs s)[t := Enq_Pushed],
                     history := history s @ [Pushed j]\<rparr>))"
  using assms by (simp_all add: step_defs)

lemma worker_exit:
  assumes t: "t < length (pcs s)" and pc: "pcs s ! t = W_Top \<or> pcs s ! t = W_Woken"
    and b: "bailout s"
  shows "queueMutex s = None \<longrightarrow>
      step (Go t) s =
        Some (Inr (s\<lparr>queueMutex := Some t,
                     pcs := (pcs s)[t := if pcs s ! t = W_Top then W_L else W_Re]\<rparr>)) \<and>
      run [Go t, Go t] s = Some (Inr (s\<lparr>pcs := (pcs s)[t := W_Done]\<rparr>))"
    and "queueMutex s \<noteq> None \<longrightarrow> step (Go t) s = None"
  using assms by (cases s; auto simp add: step_defs)+

lemma blocked_worker_woken:
  assumes jn: "join_inv s" and t: "t < length (pcs s)" and pc: "pcs s ! t = W_Blocked"
    and b: "bailout s"
  shows "\<exists>u < length (pcs s). pcs s ! u = Join_Flagged \<and>
      step (Go u) s =
        Some (Inr (s\<lparr>pcs := (map wake_worker (pcs s))[u := Join_Joining 0]\<rparr>)) \<and>
      (map wake_worker (pcs s))[u := Join_Joining 0] ! t = W_Woken"
proof -
  from nth_mem [OF t] pc have "W_Blocked \<in> set (pcs s)" by simp
  with jn b have "Join_Flagged \<in> set (pcs s)" by (simp add: join_inv_def)
  then obtain u where u: "u < length (pcs s)" "pcs s ! u = Join_Flagged"
    by (auto simp add: in_set_conv_nth)
  with pc have ne: "u \<noteq> t" by auto
  from u have "step (Go u) s =
      Some (Inr (s\<lparr>pcs := (map wake_worker (pcs s))[u := Join_Joining 0]\<rparr>))"
    by (simp add: step_defs)
  moreover from ne t pc have "(map wake_worker (pcs s))[u := Join_Joining 0] ! t = W_Woken"
    by simp
  ultimately show ?thesis using u by blast
qed

lemma at_rest_after_bailout:
  assumes r0: "reachable (ConcurrentQueue n m) s" and b: "bailout s"
    and r: "reachable s s'" and q: "quiescent s'"
  shows "(\<forall>k < threadCount s'. pcs s' ! k = W_Done) \<and> taken s' = taken s \<and>
    jobsLeft s' = int (length (queue s')) \<and>
    (\<forall>t < length (pcs s'). pcs s' ! t = Idle \<or> pcs s' ! t = Wait_Blocked \<or>
       pcs s' ! t = W_Done)"
proof -
  from reachable_trans [OF r0 r] have r': "reachable (ConcurrentQueue n m) s'" .
  note inv = reachable_inv [OF r'] and fl = reachable_flag_inv [OF r']
  from bailout_stays [OF r b] have b': "bailout s'" .
  from at_rest_workers [OF inv fl q] b' have 1: "\<forall>k < threadCount s'. pcs s' ! k = W_Done"
    by simp
  note 2 = no_pop_after_bailout [OF r b]
  note 3 = at_rest(6) [OF inv fl q]
  have 4: "\<forall>t < length (pcs s'). pcs s' ! t = Idle \<or> pcs s' ! t = Wait_Blocked \<or>
       pcs s' ! t = W_Done"
  proof (intro allI impI)
    fix t assume t: "t < length (pcs s')"
    with at_rest(3) [OF inv fl q] have rs: "resting (pcs s' ! t)" by blast
    from nth_mem [OF t] at_rest(4) [OF inv fl q] b' have "pcs s' ! t \<noteq> W_Blocked"
      by auto
    with rs show "pcs s' ! t = Idle \<or> pcs s' ! t = Wait_Blocked \<or> pcs s' ! t = W_Done"
      by (cases "pcs s' ! t") simp_all
  qed
  from 1 2 3 4 show ?thesis by blast
qed

text \<open>
  C10. \<open>enqueue\<close> never reads \<open>bailout\<close>: called in a state where the flag is set
  it takes \<open>jobsLeftMutex\<close>, adds 1 to \<open>jobsLeft\<close>, takes \<open>queueMutex\<close>, appends
  the job and reaches its \<open>notify_one\<close>, which wakes a blocked worker if there is one.
  With \<open>bailout\<close> set, a worker at the top of its loop or woken from its wait takes
  \<open>queueMutex\<close> as soon as it is free, sees the flag and ends without popping; a
  worker that is still blocked has the \<open>notify_all\<close> of \<open>joinAll\<close> on its way. From
  a state with \<open>bailout\<close> set no run pops a job: the jobs workers have taken stay the
  same, so every job that is ever run was taken before, and \<open>jobsLeft\<close> stays at least
  the length of the queue, which still holds the job. A step can only leave the queue
  as it is, append to it, or empty it, and the step that empties it is the swap of
  \<open>cancelPending\<close>. Without new calls the threads can take at most \<open>potential s\<close>
  steps and some run leads to a state at rest (or the process ends); in every state at
  rest reached after \<open>bailout\<close> was set all workers have ended, no thread is inside
  \<open>enqueue\<close>, and \<open>jobsLeft\<close> is the number of jobs that are still queued.
\<close>

theorem enqueue_after_bailout:
  assumes "reachable (ConcurrentQueue n m) s" and "bailout s" and "t < length (pcs s)"
  shows "(pcs s ! t = Idle \<and> queueMutex s = None \<and> jobsLeftMutex s = None \<and>
            jobsLeft s \<noteq> INT_MAX \<longrightarrow>
          run [Call t (Enqueue j), Go t, Go t, Go t] s =
            Some (Inr (s\<lparr>queue := queue s @ [j], jobsLeft := jobsLeft s + 1,
                         pcs := (pcs s)[t := Enq_Pushed],
                         history := history s @ [Pushed j]\<rparr>))) \<and>
         (pcs s ! t = Enq_Pushed \<longrightarrow>
            (W_Blocked \<notin> set (pcs s) \<longrightarrow>
               step (Go t) s = Some (Inr (s\<lparr>pcs := (pcs s)[t := Idle]\<rparr>))) \<and>
            (\<forall>w < length (pcs s). pcs s ! w = W_Blocked \<longrightarrow>
               step (Signal t w) s =
                 Some (Inr (s\<lparr>pcs := (pcs s)[w := W_Woken, t := Idle]\<rparr>)))) \<and>
         ((pcs s ! t = W_L \<or> pcs s ! t = W_Re) \<longrightarrow>
            step (Go t) s =
              Some (Inr (s\<lparr>queueMutex := None, pcs := (pcs s)[t := W_Done]\<rparr>))) \<and>
         (reachable s s' \<longrightarrow>
            bailout s' \<and> taken s' = taken s \<and> mset (executed s') \<subseteq># mset (taken s) \<and>
            int (length (queue s')) \<le> jobsLeft s') \<and>
         (step e s = Some (Inr s') \<longrightarrow>
            queue s' = queue s \<or> (\<exists>j'. queue s' = queue s @ [j']) \<or>
            (queue s' = [] \<and> (\<exists>u. e = Go u \<and> pcs s ! u = Can_L))) \<and>
         (pcs s ! t = Idle \<and> jobsLeftMutex s = None \<longrightarrow>
            step (Call t (Enqueue j)) s =
              Some (Inr (s\<lparr>jobsLeftMutex := Some t, pcs := (pcs s)[t := Enq_L1 j]\<rparr>))) \<and>
         (pcs s ! t = Enq_L1 j \<and> jobsLeft s \<noteq> INT_MAX \<longrightarrow>
            step (Go t) s =
              Some (Inr (s\<lparr>jobsLeft := jobsLeft s + 1, jobsLeftMutex := None,
                           pcs := (pcs s)[t := Enq_Counted j]\<rparr>))) \<and>
         (pcs s ! t = Enq_Counted j \<longrightarrow>
            (queueMutex s = None \<longrightarrow>
               step (Go t) s =
                 Some (Inr (s\<lparr>queueMutex := Some t, pcs := (pcs s)[t := Enq_L2 j]\<rparr>))) \<and>
            (queueMutex s \<noteq> None \<longrightarrow> step (Go t) s = None)) \<and>
         (pcs s ! t = Enq_L2 j \<longrightarrow>
            step (Go t) s =
              Some (Inr (s\<lparr>queue := queue s @ [j], queueMutex := None,
                           pcs := (pcs s)[t := Enq_Pushed],
                           history := history s @ [Pushed j]\<rparr>))) \<and>
         ((pcs s ! t = W_Top \<or> pcs s ! t = W_Woken) \<longrightarrow>
            (queueMutex s = None \<longrightarrow>
               step (Go t) s =
                 Some (Inr (s\<lparr>queueMutex := Some t,
                              pcs := (pcs s)[t := if pcs s ! t = W_Top then W_L else W_Re]\<rparr>)) \<and>
               run [Go t, Go t] s = Some (Inr (s\<lparr>pcs := (pcs s)[t := W_Done]\<rparr>))) \<and>
            (queueMutex s \<noteq> None \<longrightarrow> step (Go t) s = None)) \<and>
         (pcs s ! t = W_Blocked \<longrightarrow>
            step (Go t) s = None \<and>
            (\<exists>u < length (pcs s). pcs s ! u = Join_Flagged \<and>
               step (Go u) s =
                 Some (Inr (s\<lparr>pcs := (map wake_worker (pcs s))[u := Join_Joining 0]\<rparr>)) \<and>
               (map wake_worker (pcs s))[u := Join_Joining 0] ! t = W_Woken)) \<and>
         (run es s = Some (Inr s') \<and> (\<forall>e\<in>set es. is_progress e) \<longrightarrow>
            length es \<le> potential s) \<and>
         (\<exists>es. (\<forall>e\<in>set es. is_progress e) \<and>
            ((\<exists>s''. run es s = Some (Inr s'') \<and> quiescent s'') \<or>
             (\<exists>err. run es s = Some (Inl err)))) \<and>
         (reachable s s' \<and> quiescent s' \<longrightarrow>
            (\<forall>k < threadCount s'. pcs s' ! k = W_Done) \<and> taken s' = taken s \<and>
            jobsLeft s' = int (length (queue s')) \<and>
            (\<forall>u < length (pcs s'). pcs s' ! u = Idle \<or> pcs s' ! u = Wait_Blocked \<or>
               pcs s' ! u = W_Done))"
proof -
  from reachable_inv [OF assms(1)] have inv: "pool_inv s" .
  then have jn: "join_inv s" by (simp add: pool_inv_def)
  have 1: "pcs s ! t = Idle \<and> queueMutex s = None \<and> jobsLeftMutex s = None \<and>
            jobsLeft s \<noteq> INT_MAX \<longrightarrow>
          run [Call t (Enqueue j), Go t, Go t, Go t] s =
            Some (Inr (s\<lparr>queue := queue s @ [j], jobsLeft := jobsLeft s + 1,
                         pcs := (pcs s)[t := Enq_Pushed],
                         history := history s @ [Pushed j]\<rparr>))"
    using enqueue_run [OF assms(3)] by blast
  have 2: "pcs s ! t = Enq_Pushed \<longrightarrow>
            (W_Blocked \<notin> set (pcs s) \<longrightarrow>
               step (Go t) s = Some (Inr (s\<lparr>pcs := (pcs s)[t := Idle]\<rparr>))) \<and>
            (\<forall>w < length (pcs s). pcs s ! w = W_Blocked \<longrightarrow>
               step (Signal t w) s =
                 Some (Inr (s\<lparr>pcs := (pcs s)[w := W_Woken, t := Idle]\<rparr>)))"
    using enqueue_notify [OF assms(3)] by blast
  have 3: "(pcs s ! t = W_L \<or> pcs s ! t = W_Re) \<longrightarrow>
            step (Go t) s =
              Some (Inr (s\<lparr>queueMutex := None, pcs := (pcs s)[t := W_Done]\<rparr>))"
    using worker_bail [OF assms(3) _ assms(2)] by blast
  have 4: "reachable s s' \<longrightarrow>
            bailout s' \<and> taken s' = taken s \<and> mset (executed s') \<subseteq># mset (taken s) \<and>
            int (length (queue s')) \<le> jobsLeft s'"
  proof
    assume r: "reachable s s'"
    from reachable_trans [OF assms(1) r] have r': "reachable (ConcurrentQueue n m) s'" .
    from reachable_inv [OF r'] have "exec_inv s'" by (simp add: pool_inv_def)
    from executed_subset_taken [OF this] no_pop_after_bailout [OF r assms(2)]
      bailout_stays [OF r assms(2)] reachable_counter(2) [OF r']
    show "bailout s' \<and> taken s' = taken s \<and> mset (executed s') \<subseteq># mset (taken s) \<and>
            int (length (queue s')) \<le> jobsLeft s'"
      by simp
  qed
  have 5: "step e s = Some (Inr s') \<longrightarrow>
            queue s' = queue s \<or> (\<exists>j'. queue s' = queue s @ [j']) \<or>
            (queue s' = [] \<and> (\<exists>u. e = Go u \<and> pcs s ! u = Can_L))"
  proof
    assume "step e s = Some (Inr s')"
    from step_queue [OF this] assms(2)
    show "queue s' = queue s \<or> (\<exists>j'. queue s' = queue s @ [j']) \<or>
            (queue s' = [] \<and> (\<exists>u. e = Go u \<and> pcs s ! u = Can_L))"
      by blast
  qed
  note 6 = enqueue_steps(1) [OF assms(3), of j]
  note 7 = enqueue_steps(2) [OF assms(3), of j]
  note 8 = enqueue_steps(3) [OF assms(3), of j]
  note 9 = enqueue_steps(4) [OF assms(3), of j]
  have 10: "(pcs s ! t = W_Top \<or> pcs s ! t = W_Woken) \<longrightarrow>
            (queueMutex s = None \<longrightarrow>
               step (Go t) s =
                 Some (Inr (s\<lparr>queueMutex := Some t,
                              pcs := (pcs s)[t := if pcs s ! t = W_Top then W_L else W_Re]\<rparr>)) \<and>
               run [Go t, Go t] s = Some (Inr (s\<lparr>pcs := (pcs s)[t := W_Done]\<rparr>))) \<and>
            (queueMutex s \<noteq> None \<longrightarrow> step (Go t) s = None)"
    using worker_exit [OF assms(3) _ assms(2)] by blast
  have 11: "pcs s ! t = W_Blocked \<longrightarrow>
            step (Go t) s = None \<and>
            (\<exists>u < length (pcs s). pcs s ! u = Join_Flagged \<and>
               step (Go u) s =
                 Some (Inr (s\<lparr>pcs := (map wake_worker (pcs s))[u := Join_Joining 0]\<rparr>)) \<and>
               (map wake_worker (pcs s))[u := Join_Joining 0] ! t = W_Woken)"
  proof
    assume pc: "pcs s ! t = W_Blocked"
    with assms(3) have "step (Go t) s = None" by simp
    with blocked_worker_woken [OF jn assms(3) pc assms(2)]
    show "step (Go t) s = None \<and>
            (\<exists>u < length (pcs s). pcs s ! u = Join_Flagged \<and>
               step (Go u) s =
                 Some (Inr (s\<lparr>pcs := (map wake_worker (pcs s))[u := Join_Joining 0]\<rparr>)) \<and>
               (map wake_worker (pcs s))[u := Join_Joining 0] ! t = W_Woken)"
      by blast
  qed
  have 12: "run es s = Some (Inr s') \<and> (\<forall>e\<in>set es. is_progress e) \<longrightarrow>
            length es \<le> potential s"
    using run_bounded [of es s s'] by auto
  have 13: "\<exists>es. (\<forall>e\<in>set es. is_progress e) \<and>
            ((\<exists>s''. run es s = Some (Inr s'') \<and> quiescent s'') \<or>
             (\<exists>err. run es s = Some (Inl err)))"
    using comes_to_rest [of s] by blast
  have 14: "reachable s s' \<and> quiescent s' \<longrightarrow>
            (\<forall>k < threadCount s'. pcs s' ! k = W_Done) \<and> taken s' = taken s \<and>
            jobsLeft s' = int (length (queue s')) \<and>
            (\<forall>u < length (pcs s'). pcs s' ! u = Idle \<or> pcs s' ! u = Wait_Blocked \<or>
               pcs s' ! u = W_Done)"
    using at_rest_after_bailout [OF assms(1,2)] by blast
  show ?thesis
    by (intro conjI) (fact 1 2 3 4 5 6 7 8 9 10 11 12 13 14)+
qed

lemma run_bail_flagged:
  "run [Go 0, Go 0, Call 2 JoinAll, Go 2] (ConcurrentQueue 2 2) = Some (Inr bail_flagged)"
  by (simp add: ConcurrentQueue_def bail_flagged_def step_defs numeral_2_eq_2)

lemma run_bail_rest:
  "run [Call 3 (Enqueue (Job 7 5 False)), Go 3, Go 3, Go 3, Signal 3 0, Go 0, Go 0,
        Go 1, Go 1, Go 2, Go 2, Go 2, Go 2] bail_flagged = Some (Inr bail_rest)"
  by (simp add: bail_flagged_def bail_pushed_def bail_rest_def step_defs INT_MAX_def
      numeral_2_eq_2)

lemma quiescent_bail_rest: "quiescent bail_rest"
  by (simp add: quiescent_def bail_rest_def bail_pushed_def bail_flagged_def All_less_Suc)

theorem enqueue_after_bailout_witness:
  "reachable (ConcurrentQueue 2 2) bail_flagged \<and> bailout bail_flagged \<and>
   3 < length (pcs bail_flagged) \<and> pcs bail_flagged ! 3 = Idle \<and>
   queueMutex bail_flagged = None \<and> jobsLeftMutex bail_flagged = None \<and>
   jobsLeft bail_flagged \<noteq> INT_MAX \<and>
   run [Call 3 (Enqueue (Job 7 5 False)), Go 3, Go 3, Go 3] bail_flagged =
     Some (Inr bail_pushed) \<and>
   reachable (ConcurrentQueue 2 2) bail_pushed \<and> bailout bail_pushed \<and>
   3 < length (pcs bail_pushed) \<and> pcs bail_pushed ! 3 = Enq_Pushed \<and>
   0 < length (pcs bail_pushed) \<and> pcs bail_pushed ! 0 = W_Blocked \<and>
   step (Signal 3 0) bail_pushed = Some (Inr bail_signalled) \<and>
   reachable (ConcurrentQueue 2 2) bail_signalled \<and> bailout bail_signalled \<and>
   0 < length (pcs bail_signalled) \<and> pcs bail_signalled ! 0 = W_Woken \<and>
   queueMutex bail_signalled = None \<and>
   run [Go 0, Go 0] bail_signalled =
     Some (Inr (bail_signalled\<lparr>pcs := [W_Done, W_Top, Join_Flagged, Idle]\<rparr>)) \<and>
   reachable bail_flagged bail_rest \<and> quiescent bail_rest \<and>
   threadCount bail_rest = 2 \<and> pcs bail_rest ! 0 = W_Done \<and> pcs bail_rest ! 1 = W_Done \<and>
   taken bail_rest = taken bail_flagged \<and> executed bail_rest = [] \<and>
   queue bail_rest = [Job 7 5 False] \<and> jobsLeft bail_rest = 1"
proof -
  have r1: "reachable (ConcurrentQueue 2 2) bail_flagged"
    by (rule run_reachable [OF run_bail_flagged])
  have l1: "bailout bail_flagged" "3 < length (pcs bail_flagged)" "pcs bail_flagged ! 3 = Idle"
    "queueMutex bail_flagged = None" "jobsLeftMutex bail_flagged = None"
    "jobsLeft bail_flagged \<noteq> INT_MAX"
    by (simp_all add: bail_flagged_def INT_MAX_def)
  have e1: "bail_flagged\<lparr>queue := queue bail_flagged @ [Job 7 5 False],
      jobsLeft := jobsLeft bail_flagged + 1, pcs := (pcs bail_flagged)[3 := Enq_Pushed],
      history := history bail_flagged @ [Pushed (Job 7 5 False)]\<rparr> = bail_pushed"
    by (simp add: bail_flagged_def bail_pushed_def)
  have r4: "reachable bail_flagged bail_rest"
    by (rule run_reachable [OF run_bail_rest])
  note q4 = quiescent_bail_rest
  note t1 = enqueue_after_bailout [where e = "Go 0" and es = "[]" and s' = bail_rest
      and j = "Job 7 5 False", OF r1 l1(1,2)]
  from t1
  have "pcs bail_flagged ! 3 = Idle \<and> queueMutex bail_flagged = None \<and>
      jobsLeftMutex bail_flagged = None \<and> jobsLeft bail_flagged \<noteq> INT_MAX \<longrightarrow>
      run [Call 3 (Enqueue (Job 7 5 False)), Go 3, Go 3, Go 3] bail_flagged =
        Some (Inr (bail_flagged\<lparr>queue := queue bail_flagged @ [Job 7 5 False],
          jobsLeft := jobsLeft bail_flagged + 1, pcs := (pcs bail_flagged)[3 := Enq_Pushed],
          history := history bail_flagged @ [Pushed (Job 7 5 False)]\<rparr>))"
    by (elim conjE)
  with l1 e1
  have a: "run [Call 3 (Enqueue (Job 7 5 False)), Go 3, Go 3, Go 3] bail_flagged =
      Some (Inr bail_pushed)"
    by simp
  from t1
  have "reachable bail_flagged bail_rest \<and> quiescent bail_rest \<longrightarrow>
      (\<forall>k < threadCount bail_rest. pcs bail_rest ! k = W_Done) \<and>
      taken bail_rest = taken bail_flagged \<and>
      jobsLeft bail_rest = int (length (queue bail_rest)) \<and>
      (\<forall>u < length (pcs bail_rest). pcs bail_rest ! u = Idle \<or>
         pcs bail_rest ! u = Wait_Blocked \<or> pcs bail_rest ! u = W_Done)"
    by (elim conjE)
  with r4 q4
  have d0: "\<forall>k < threadCount bail_rest. pcs bail_rest ! k = W_Done"
    and d1: "taken bail_rest = taken bail_flagged"
    by blast+
  have d2: "threadCount bail_rest = 2"
    by (simp add: bail_rest_def bail_pushed_def bail_flagged_def)
  with d0 have d: "pcs bail_rest ! 0 = W_Done" "pcs bail_rest ! 1 = W_Done"
    by simp_all
  have d': "executed bail_rest = []" "queue bail_rest = [Job 7 5 False]"
    "jobsLeft bail_rest = 1"
    by (simp_all add: bail_rest_def bail_pushed_def bail_flagged_def executed_def)
  from r1 run_reachable [OF a] have r2: "reachable (ConcurrentQueue 2 2) bail_pushed"
    by (rule reachable_trans)
  have l2: "bailout bail_pushed" "3 < length (pcs bail_pushed)"
    "pcs bail_pushed ! 3 = Enq_Pushed" "0 < length (pcs bail_pushed)"
    "pcs bail_pushed ! 0 = W_Blocked"
    by (simp_all add: bail_pushed_def bail_flagged_def)
  have e2: "bail_pushed\<lparr>pcs := (pcs bail_pushed)[0 := W_Woken, 3 := Idle]\<rparr> = bail_signalled"
    by (simp add: bail_signalled_def bail_pushed_def bail_flagged_def)
  from enqueue_after_bailout [where e = "Go 0" and es = "[]" and s' = bail_pushed
      and j = "Job 7 5 False", OF r2 l2(1,2)]
  have "pcs bail_pushed ! 3 = Enq_Pushed \<longrightarrow>
      (W_Blocked \<notin> set (pcs bail_pushed) \<longrightarrow>
         step (Go 3) bail_pushed =
           Some (Inr (bail_pushed\<lparr>pcs := (pcs bail_pushed)[3 := Idle]\<rparr>))) \<and>
      (\<forall>w < length (pcs bail_pushed). pcs bail_pushed ! w = W_Blocked \<longrightarrow>
         step (Signal 3 w) bail_pushed =
           Some (Inr (bail_pushed\<lparr>pcs := (pcs bail_pushed)[w := W_Woken, 3 := Idle]\<rparr>)))"
    by (elim conjE)
  with l2 have "step (Signal 3 0) bail_pushed =
      Some (Inr (bail_pushed\<lparr>pcs := (pcs bail_pushed)[0 := W_Woken, 3 := Idle]\<rparr>))"
    by blast
  with e2 have b: "step (Signal 3 0) bail_pushed = Some (Inr bail_signalled)" by simp
  from r2 b have r3: "reachable (ConcurrentQueue 2 2) bail_signalled"
    by (rule reachable.next_step)
  have l3: "bailout bail_signalled" "0 < length (pcs bail_signalled)"
    "pcs bail_signalled ! 0 = W_Woken" "queueMutex bail_signalled = None"
    by (simp_all add: bail_signalled_def bail_pushed_def bail_flagged_def)
  have e3: "bail_signalled\<lparr>pcs := (pcs bail_signalled)[0 := W_Done]\<rparr> =
      bail_signalled\<lparr>pcs := [W_Done, W_Top, Join_Flagged, Idle]\<rparr>"
    by (simp add: bail_signalled_def bail_pushed_def bail_flagged_def)
  from enqueue_after_bailout [where e = "Go 0" and es = "[]" and s' = bail_signalled
      and j = "Job 7 5 False", OF r3 l3(1,2)]
  have "(pcs bail_signalled ! 0 = W_Top \<or> pcs bail_signalled ! 0 = W_Woken) \<longrightarrow>
      (queueMutex bail_signalled = None \<longrightarrow>
         step (Go 0) bail_signalled =
           Some (Inr (bail_signalled\<lparr>queueMutex := Some 0,
             pcs := (pcs bail_signalled)
               [0 := if pcs bail_signalled ! 0 = W_Top then W_L else W_Re]\<rparr>)) \<and>
         run [Go 0, Go 0] bail_signalled =
           Some (Inr (bail_signalled\<lparr>pcs := (pcs bail_signalled)[0 := W_Done]\<rparr>))) \<and>
      (queueMutex bail_signalled \<noteq> None \<longrightarrow> step (Go 0) bail_signalled = None)"
    by (elim conjE)
  with l3 have "run [Go 0, Go 0] bail_signalled =
      Some (Inr (bail_signalled\<lparr>pcs := (pcs bail_signalled)[0 := W_Done]\<rparr>))"
    by blast
  with e3 have c: "run [Go 0, Go 0] bail_signalled =
      Some (Inr (bail_signalled\<lparr>pcs := [W_Done, W_Top, Join_Flagged, Idle]\<rparr>))"
    by simp
  show ?thesis
    by (intro conjI) (fact r1 l1 a r2 l2 b r3 l3 c r4 q4 d2 d d1 d')+
qed

subsection \<open>\<open>cancelPending\<close>\<close>














subsection \<open>A job that throws\<close>

lemma step_waiter_stays:
  assumes st: "step e s = Some (Inr s')" and t: "t < length (pcs s)"
    and w: "in_waitAll (pcs s ! t)"
  shows "in_waitAll (pcs s' ! t) \<or> pcs s' ! t = Idle"
proof (cases e)
  case (Call u c)
  with st have u: "u < length (pcs s)" "pcs s ! u = Idle" by (simp_all split: if_splits)
  with w have "u \<noteq> t" by auto
  with Call st u w show ?thesis
    by (cases c) (auto simp add: lock_queue_def lock_jobsLeft_def split: if_splits)
next
  case (Go u)
  with st have u: "u < length (pcs s)" and g: "go u (pcs s ! u) s = Some (Inr s')"
    by (simp_all split: if_splits)
  show ?thesis
  proof (cases "u = t")
    case True
    with g w t Go show ?thesis
      by (cases "pcs s ! t") (auto simp add: step_defs split: if_splits)
  next
    case False
    from g u have "pcs s' ! t = pcs s ! t \<or> pcs s' ! t = wake_waiter (pcs s ! t) \<or>
      pcs s' ! t = wake_worker (pcs s ! t)"
    proof (cases rule: go_cases)
      case (fin_zero r)
      with False t show ?thesis by (cases r) (simp_all add: return_to_def)
    next
      case (fin_pos k r)
      with False t show ?thesis by (cases r) (simp_all add: return_to_def)
    qed (use False t in simp_all)
    with w show ?thesis
      by (cases "pcs s ! t") auto
  qed
next
  case (Signal u v)
  with st w t show ?thesis
    by (auto simp add: nth_list_update split: if_splits)
next
  case (Spurious u)
  with st w t show ?thesis
    by (auto simp add: nth_list_update split: if_splits)
qed

lemma job_pending_positive:
  assumes "reachable (ConcurrentQueue n m) s" "t < length (pcs s)" "pcs s ! t = W_Job j"
  shows "0 < jobsLeft s"
proof -
  from reachable_inv [OF assms(1)] have c: "counter_inv s" by (simp add: pool_inv_def)
  with assms(2,3) owed_le_sum [of "pcs s" t] show ?thesis
    by (simp add: counter_inv_def)
qed

lemma failing_job_step:
  assumes t: "t < length (pcs s)" and pc: "pcs s ! t = W_Job j" and th: "throws j"
  shows "step (Go t) s = Some (Inl Terminate)"
  using assms by (simp add: step_defs)

lemma failing_job_stays:
  assumes r: "reachable s s'" and t: "t < length (pcs s)" and pc: "pcs s ! t = W_Job j"
    and th: "throws j"
  shows "t < length (pcs s') \<and> pcs s' ! t = W_Job j"
  using r
proof (induction rule: reachable.induct)
  case start
  from t pc show ?case by simp
next
  case (next_step s1 e s2)
  then have t1: "t < length (pcs s1)" and pc1: "pcs s1 ! t = W_Job j" by simp_all
  from failing_job_step [OF t1 pc1 th] next_step.hyps(2) have "e \<noteq> Go t" by auto
  from step_pc_kept [OF next_step.hyps(2) t1 this] pc1 have "pcs s2 ! t = W_Job j" by simp
  with step_length(1) [OF next_step.hyps(2)] t1 show ?case by simp
qed

lemma waiter_never_returns:
  assumes r0: "reachable (ConcurrentQueue n m) s" and t: "t < length (pcs s)"
    and pc: "pcs s ! t = W_Job j" and th: "throws j"
    and r: "reachable s s'" and u: "u < length (pcs s)" and w: "in_waitAll (pcs s ! u)"
  shows "in_waitAll (pcs s' ! u)"
  using r
proof (induction rule: reachable.induct)
  case start
  from w show ?case .
next
  case (next_step s1 e s2)
  from reachable_length [OF next_step.hyps(1)] u have u1: "u < length (pcs s1)" by simp
  from failing_job_stays [OF next_step.hyps(1) t pc th]
  have t1: "t < length (pcs s1)" "pcs s1 ! t = W_Job j" by simp_all
  from job_pending_positive [OF reachable_trans [OF r0 next_step.hyps(1)] t1]
  have pos: "0 < jobsLeft s1" .
  from step_waiter_stays [OF next_step.hyps(2) u1 next_step.IH]
  show ?case
  proof
    assume "pcs s2 ! u = Idle"
    from step_waiter_returns [OF next_step.hyps(2) u1 next_step.IH this] pos
    show ?thesis by simp
  qed
qed

text \<open>
  C7 as stated says that a failure escaping a job is caught at the worker loop and that
  the decrement and the wake-up still happen. In the run below a job that throws is
  submitted to a pool with one worker; the worker pops it, \<open>jobsLeft\<close> is 1, and the
  worker's next step, the call of the job, ends the process.
\<close>

theorem job_failure_counterexample:
  "run [Call 1 (Enqueue (Job 7 5 True)), Go 1, Go 1, Go 1, Go 1, Go 0, Go 0]
     (ConcurrentQueue 1 1) = Some (Inr one_failing) \<and>
   pcs one_failing ! 0 = W_Job (Job 7 5 True) \<and> throws (Job 7 5 True) \<and>
   jobsLeft one_failing = 1 \<and>
   step (Go 0) one_failing = Some (Inl Terminate)"
  using run_one_failing by (simp add: one_failing_def step_defs)

text \<open>
  C7, as the code has it. \<open>nextJob\<close> has no handler around \<open>job()\<close>, and neither has
  the lambda of the constructor: when the call of a job throws, the exception leaves
  the thread function and the process ends (\<open>std::terminate\<close>). \<open>finalizeJobs(1)\<close> is
  not reached for that job: in every state that the other threads can reach before the
  call, the worker is still at the call, the call ends the process, \<open>jobsLeft\<close> is
  greater than 0, the state is not at rest, and a thread that is inside \<open>waitAll\<close>
  stays inside it for ever (it may be woken, but it blocks again). Some run of the
  threads, of at most \<open>potential s\<close> steps, ends the process.
\<close>

theorem job_failure_ends_process:
  assumes "reachable (ConcurrentQueue n m) s" and "t < length (pcs s)"
    and "pcs s ! t = W_Job j" and "throws j"
  shows "step (Go t) s = Some (Inl Terminate) \<and> 0 < jobsLeft s \<and>
    (\<forall>e s'. step e s = Some (Inr s') \<longrightarrow> pcs s' ! t = W_Job j \<and> 0 < jobsLeft s') \<and>
    (\<forall>s'. reachable s s' \<longrightarrow>
       pcs s' ! t = W_Job j \<and> 0 < jobsLeft s' \<and> step (Go t) s' = Some (Inl Terminate) \<and>
       \<not> quiescent s' \<and>
       (\<forall>u < length (pcs s'). \<forall>s''. in_waitAll (pcs s' ! u) \<and> reachable s' s'' \<longrightarrow>
          in_waitAll (pcs s'' ! u) \<and> pcs s'' ! u \<noteq> Idle)) \<and>
    (\<exists>es. (\<forall>e\<in>set es. is_progress e) \<and> length es \<le> potential s \<and>
       (\<exists>err. run es s = Some (Inl err)))"
proof -
  have dies: "step (Go t) s = Some (Inl Terminate)"
    by (rule failing_job_step [OF assms(2-4)])
  have all: "pcs s' ! t = W_Job j \<and> 0 < jobsLeft s' \<and> step (Go t) s' = Some (Inl Terminate) \<and>
       \<not> quiescent s' \<and>
       (\<forall>u < length (pcs s'). \<forall>s''. in_waitAll (pcs s' ! u) \<and> reachable s' s'' \<longrightarrow>
          in_waitAll (pcs s'' ! u) \<and> pcs s'' ! u \<noteq> Idle)"
    if r: "reachable s s'" for s'
  proof -
    from failing_job_stays [OF r assms(2-4)]
    have t': "t < length (pcs s')" and pc': "pcs s' ! t = W_Job j" by simp_all
    from reachable_trans [OF assms(1) r] have r': "reachable (ConcurrentQueue n m) s'" .
    note pos = job_pending_positive [OF r' t' pc']
    note d = failing_job_step [OF t' pc' assms(4)]
    from d t' have nq: "\<not> quiescent s'" by (auto simp add: quiescent_def)
    have "in_waitAll (pcs s'' ! u) \<and> pcs s'' ! u \<noteq> Idle"
      if "u < length (pcs s')" "in_waitAll (pcs s' ! u)" "reachable s' s''" for u s''
    proof -
      from waiter_never_returns [OF r' t' pc' assms(4) that(3,1,2)]
      have "in_waitAll (pcs s'' ! u)" .
      then show ?thesis by auto
    qed
    with pc' pos d nq show ?thesis by blast
  qed
  have one: "pcs s' ! t = W_Job j \<and> 0 < jobsLeft s'" if st: "step e s = Some (Inr s')" for e s'
    using all [OF reachable.next_step [OF reachable.start st]] by blast
  from comes_to_rest [of s] obtain es where es: "\<forall>e\<in>set es. is_progress e"
    "length es \<le> potential s"
    "(\<exists>s'. run es s = Some (Inr s') \<and> quiescent s') \<or> (\<exists>err. run es s = Some (Inl err))"
    by blast
  from es(3) have "\<exists>err. run es s = Some (Inl err)"
  proof
    assume "\<exists>s'. run es s = Some (Inr s') \<and> quiescent s'"
    then obtain s' where "run es s = Some (Inr s')" "quiescent s'" by blast
    with all [OF run_reachable] show ?thesis by blast
  qed
  with es(1,2) have ex: "\<exists>es. (\<forall>e\<in>set es. is_progress e) \<and> length es \<le> potential s \<and>
       (\<exists>err. run es s = Some (Inl err))"
    by blast
  from dies all [OF reachable.start] one all ex show ?thesis by blast
qed

lemma run_failing_waiting:
  "run [Call 1 WaitAll, Go 1] one_failing = Some (Inr failing_waiting)"
  by (simp add: one_failing_def failing_waiting_def step_defs)

lemma run_waiter_again:
  "run [Spurious 1, Go 1, Go 1] failing_waiting = Some (Inr failing_waiting)"
  by (simp add: one_failing_def failing_waiting_def step_defs)

theorem job_failure_ends_process_witness:
  "reachable (ConcurrentQueue 1 1) one_failing \<and> 0 < length (pcs one_failing) \<and>
   pcs one_failing ! 0 = W_Job (Job 7 5 True) \<and> throws (Job 7 5 True) \<and>
   step (Go 0) one_failing = Some (Inl Terminate) \<and> 0 < jobsLeft one_failing \<and>
   reachable one_failing failing_waiting \<and> 1 < length (pcs failing_waiting) \<and>
   in_waitAll (pcs failing_waiting ! 1) \<and>
   run [Spurious 1, Go 1, Go 1] failing_waiting = Some (Inr failing_waiting) \<and>
   step (Go 0) failing_waiting = Some (Inl Terminate) \<and> 0 < jobsLeft failing_waiting \<and>
   \<not> quiescent failing_waiting \<and>
   reachable failing_waiting
     (failing_waiting\<lparr>jobsLeftMutex := Some 1, pcs := [W_Job (Job 7 5 True), Wait_Re]\<rparr>) \<and>
   in_waitAll (pcs (failing_waiting\<lparr>jobsLeftMutex := Some 1,
     pcs := [W_Job (Job 7 5 True), Wait_Re]\<rparr>) ! 1)"
proof -
  have r: "reachable (ConcurrentQueue 1 1) one_failing"
    by (rule run_reachable [OF run_one_failing])
  have l: "0 < length (pcs one_failing)" "pcs one_failing ! 0 = W_Job (Job 7 5 True)"
    "throws (Job 7 5 True)"
    by (simp_all add: one_failing_def)
  have r2: "reachable one_failing failing_waiting"
    by (rule run_reachable [OF run_failing_waiting])
  have l2: "1 < length (pcs failing_waiting)" "in_waitAll (pcs failing_waiting ! 1)"
    by (simp_all add: failing_waiting_def one_failing_def)
  note a = run_waiter_again
  note t = job_failure_ends_process [OF r l]
  from t have b1: "step (Go 0) one_failing = Some (Inl Terminate)"
    by (elim conjE)
  from t have b2: "0 < jobsLeft one_failing"
    by (elim conjE)
  from t have "\<forall>s'. reachable one_failing s' \<longrightarrow>
       pcs s' ! 0 = W_Job (Job 7 5 True) \<and> 0 < jobsLeft s' \<and>
       step (Go 0) s' = Some (Inl Terminate) \<and> \<not> quiescent s' \<and>
       (\<forall>u < length (pcs s'). \<forall>s''. in_waitAll (pcs s' ! u) \<and> reachable s' s'' \<longrightarrow>
          in_waitAll (pcs s'' ! u) \<and> pcs s'' ! u \<noteq> Idle)"
    by (elim conjE)
  with r2 have c: "step (Go 0) failing_waiting = Some (Inl Terminate)"
    "0 < jobsLeft failing_waiting" "\<not> quiescent failing_waiting"
    and "\<forall>u < length (pcs failing_waiting). \<forall>s''.
      in_waitAll (pcs failing_waiting ! u) \<and> reachable failing_waiting s'' \<longrightarrow>
        in_waitAll (pcs s'' ! u) \<and> pcs s'' ! u \<noteq> Idle"
    by blast+
  with l2 have d0: "\<forall>s''. reachable failing_waiting s'' \<longrightarrow>
      in_waitAll (pcs s'' ! 1) \<and> pcs s'' ! 1 \<noteq> Idle"
    by blast
  have "run [Spurious 1, Go 1] failing_waiting =
      Some (Inr (failing_waiting\<lparr>jobsLeftMutex := Some 1,
        pcs := [W_Job (Job 7 5 True), Wait_Re]\<rparr>))"
    by (simp add: one_failing_def failing_waiting_def step_defs)
  then have d1: "reachable failing_waiting
      (failing_waiting\<lparr>jobsLeftMutex := Some 1, pcs := [W_Job (Job 7 5 True), Wait_Re]\<rparr>)"
    by (rule run_reachable)
  with d0 have d: "in_waitAll (pcs (failing_waiting\<lparr>jobsLeftMutex := Some 1,
      pcs := [W_Job (Job 7 5 True), Wait_Re]\<rparr>) ! 1)"
    by blast
  show ?thesis
    by (intro conjI) (fact r l b1 b2 r2 l2 a c d1 d)+
qed

subsection \<open>The fate of a job\<close>

lemma job_steps:
  assumes k: "kind_inv s" and t: "t < length (pcs s)" and pc: "pcs s ! t = W_Job j"
  shows "t < threadCount s"
    and "\<not> throws j \<longrightarrow>
      step (Go t) s =
        Some (Inr (s\<lparr>pcs := (pcs s)[t := W_Ran], total_acc := total_acc s + summand j,
                     history := history s @ [Ran j]\<rparr>))"
    and "throws j \<longrightarrow> step (Go t) s = Some (Inl Terminate)"
proof -
  from k t have "worker_pc (pcs s ! t) = (t < threadCount s)"
    by (simp add: kind_inv_def)
  with pc show "t < threadCount s" by simp
  from t pc show "\<not> throws j \<longrightarrow>
      step (Go t) s =
        Some (Inr (s\<lparr>pcs := (pcs s)[t := W_Ran], total_acc := total_acc s + summand j,
                     history := history s @ [Ran j]\<rparr>))"
    by (simp add: step_defs)
  from t pc show "throws j \<longrightarrow> step (Go t) s = Some (Inl Terminate)"
    by (simp add: step_defs)
qed

lemma at_rest_no_inflight:
  assumes inv: "pool_inv s" and fl: "flag_inv s" and q: "quiescent s"
  shows "sum_list (map inflight (pcs s)) = {#}"
proof (rule inflight_sum_empty)
  fix p assume "p \<in> set (pcs s)"
  with at_rest(3) [OF inv fl q] have "resting p" by (auto simp add: in_set_conv_nth)
  then show "inflight p = {#}" by (cases p) simp_all
qed

text \<open>
  C1. A job is recorded in the history when \<open>enqueue\<close> appends it to \<open>_queue\<close>,
  when a worker pops it, when a worker has run it, and when \<open>cancelPending\<close> swaps
  it out. In every reachable state each job that has been appended is in exactly one
  place: still in \<open>_queue\<close>, popped by a worker that is about to run it, run, or
  swapped out by \<open>cancelPending\<close>; counted with multiplicity, and so, when the jobs
  submitted are distinct, no job is run twice, none is both run and swapped out, and a
  job that was run or swapped out is no longer queued. A popped job is run by the next
  step of the worker that popped it (if its call throws, the process ends). Without
  new calls the threads can take at most \<open>potential s\<close> steps, and some run leads to
  a state at rest (or the process ends). In a state at rest no job is in flight; and as
  long as \<open>bailout\<close> is unset and the pool has a worker, \<open>_queue\<close> is empty there:
  every job has been run or swapped out. Once \<open>bailout\<close> is set no job is popped any
  more: the jobs still queued are dropped.
\<close>

theorem job_fate:
  assumes "reachable (ConcurrentQueue n m) s"
  shows "mset (pushed s) =
           mset (queue s) + sum_list (map inflight (pcs s)) + mset (executed s) +
           mset (drained s) \<and>
         (distinct (pushed s) \<longrightarrow> distinct (executed s @ drained s @ queue s)) \<and>
         (quiescent s \<and> \<not> bailout s \<and> 0 < n \<longrightarrow>
            queue s = [] \<and> mset (pushed s) = mset (executed s) + mset (drained s)) \<and>
         (bailout s \<and> reachable s s' \<longrightarrow> taken s' = taken s) \<and>
         (t < length (pcs s) \<and> pcs s ! t = Enq_L2 j \<longrightarrow>
            step (Go t) s =
              Some (Inr (s\<lparr>queue := queue s @ [j], queueMutex := None,
                           pcs := (pcs s)[t := Enq_Pushed],
                           history := history s @ [Pushed j]\<rparr>))) \<and>
         (t < length (pcs s) \<and> pcs s ! t = W_Job j \<longrightarrow>
            t < threadCount s \<and>
            (\<not> throws j \<longrightarrow>
               step (Go t) s =
                 Some (Inr (s\<lparr>pcs := (pcs s)[t := W_Ran],
                              total_acc := total_acc s + summand j,
                              history := history s @ [Ran j]\<rparr>))) \<and>
            (throws j \<longrightarrow> step (Go t) s = Some (Inl Terminate))) \<and>
         (run es s = Some (Inr s') \<and> (\<forall>e\<in>set es. is_progress e) \<longrightarrow>
            length es \<le> potential s) \<and>
         (\<exists>es. (\<forall>e\<in>set es. is_progress e) \<and>
            ((\<exists>s''. run es s = Some (Inr s'') \<and> quiescent s'') \<or>
             (\<exists>err. run es s = Some (Inl err)))) \<and>
         (quiescent s \<longrightarrow>
            mset (pushed s) = mset (queue s) + mset (executed s) + mset (drained s))"
proof -
  from reachable_inv [OF assms] have inv: "pool_inv s" .
  then have f: "fifo_inv s" and x: "exec_inv s" and k: "kind_inv s"
    by (simp_all add: pool_inv_def)
  note fl = reachable_flag_inv [OF assms]
  note 1 = conservation [OF f x]
  have 2: "distinct (pushed s) \<longrightarrow> distinct (executed s @ drained s @ queue s)"
  proof
    assume d: "distinct (pushed s)"
    from 1 have "mset (executed s @ drained s @ queue s) \<subseteq># mset (pushed s)"
      by (simp add: ac_simps)
    then show "distinct (executed s @ drained s @ queue s)"
      using d by (rule distinct_mset_mono)
  qed
  have 3: "quiescent s \<and> \<not> bailout s \<and> 0 < n \<longrightarrow>
            queue s = [] \<and> mset (pushed s) = mset (executed s) + mset (drained s)"
  proof (intro impI, elim conjE)
    assume q: "quiescent s" "\<not> bailout s" "0 < n"
    from reachable_length [OF assms] q(3) have "0 < threadCount s"
      by (simp add: ConcurrentQueue_def)
    from quiescent_empty [OF inv q(1,2) this] 1
    show "queue s = [] \<and> mset (pushed s) = mset (executed s) + mset (drained s)"
      by simp
  qed
  have 4: "bailout s \<and> reachable s s' \<longrightarrow> taken s' = taken s"
    using no_pop_after_bailout by blast
  have 5: "t < length (pcs s) \<and> pcs s ! t = Enq_L2 j \<longrightarrow>
            step (Go t) s =
              Some (Inr (s\<lparr>queue := queue s @ [j], queueMutex := None,
                           pcs := (pcs s)[t := Enq_Pushed],
                           history := history s @ [Pushed j]\<rparr>))"
    using enqueue_steps(4) [of t s j] by blast
  have 6: "t < length (pcs s) \<and> pcs s ! t = W_Job j \<longrightarrow>
            t < threadCount s \<and>
            (\<not> throws j \<longrightarrow>
               step (Go t) s =
                 Some (Inr (s\<lparr>pcs := (pcs s)[t := W_Ran],
                              total_acc := total_acc s + summand j,
                              history := history s @ [Ran j]\<rparr>))) \<and>
            (throws j \<longrightarrow> step (Go t) s = Some (Inl Terminate))"
    using job_steps [OF k, of t j] by blast
  have 7: "run es s = Some (Inr s') \<and> (\<forall>e\<in>set es. is_progress e) \<longrightarrow>
            length es \<le> potential s"
    using run_bounded [of es s s'] by auto
  have 8: "\<exists>es. (\<forall>e\<in>set es. is_progress e) \<and>
            ((\<exists>s''. run es s = Some (Inr s'') \<and> quiescent s'') \<or>
             (\<exists>err. run es s = Some (Inl err)))"
    using comes_to_rest [of s] by blast
  have 9: "quiescent s \<longrightarrow>
            mset (pushed s) = mset (queue s) + mset (executed s) + mset (drained s)"
    using at_rest_no_inflight [OF inv fl] 1 by simp
  show ?thesis
    by (intro conjI) (fact 1 2 3 4 5 6 7 8 9)+
qed

lemma run_one_done:
  "run [Go 0, Go 0, Call 1 (Enqueue (Job 7 5 False)), Go 1, Go 1, Go 1, Signal 1 0,
        Go 0, Go 0, Go 0, Go 0, Go 0, Go 0, Go 0, Go 0]
     (ConcurrentQueue 1 1) = Some (Inr one_done)"
  by (simp add: ConcurrentQueue_def one_done_def step_defs return_to_def INT_MAX_def)

lemma quiescent_one_done: "quiescent one_done"
  by (simp add: quiescent_def one_done_def All_less_Suc)

theorem job_fate_witness:
  "reachable (ConcurrentQueue 1 1) one_taken \<and> 0 < length (pcs one_taken) \<and>
   pcs one_taken ! 0 = W_Job (Job 7 5 False) \<and> \<not> throws (Job 7 5 False) \<and>
   step (Go 0) one_taken =
     Some (Inr (one_taken\<lparr>pcs := [W_Ran, Idle], total_acc := 5,
       history := [Pushed (Job 7 5 False), Took (Job 7 5 False), Ran (Job 7 5 False)]\<rparr>)) \<and>
   reachable (ConcurrentQueue 1 1) one_done \<and> quiescent one_done \<and> \<not> bailout one_done \<and>
   (0::nat) < 1 \<and> distinct (pushed one_done) \<and> pushed one_done = [Job 7 5 False] \<and>
   queue one_done = [] \<and>
   mset (pushed one_done) = mset (executed one_done) + mset (drained one_done) \<and>
   distinct (executed one_done @ drained one_done @ queue one_done) \<and>
   executed one_done = [Job 7 5 False] \<and> drained one_done = [] \<and>
   reachable (ConcurrentQueue 0 1) two_cancelled \<and> quiescent two_cancelled \<and>
   distinct (pushed two_cancelled) \<and>
   distinct (executed two_cancelled @ drained two_cancelled @ queue two_cancelled) \<and>
   mset (pushed two_cancelled) =
     mset (queue two_cancelled) + mset (executed two_cancelled) + mset (drained two_cancelled) \<and>
   executed two_cancelled = [] \<and> drained two_cancelled = [Job 1 5 False, Job 2 3 False]"
proof -
  have r0: "reachable (ConcurrentQueue 1 1) one_taken"
  proof -
    have "run [Call 1 (Enqueue (Job 7 5 False)), Go 1, Go 1, Go 1, Go 1, Go 0, Go 0]
        (ConcurrentQueue 1 1) = Some (Inr one_taken)"
      by (simp add: ConcurrentQueue_def one_taken_def step_defs INT_MAX_def)
    then show ?thesis by (rule run_reachable)
  qed
  have l0: "0 < length (pcs one_taken)" "pcs one_taken ! 0 = W_Job (Job 7 5 False)"
    "\<not> throws (Job 7 5 False)"
    by (simp_all add: one_taken_def)
  have e0: "one_taken\<lparr>pcs := (pcs one_taken)[0 := W_Ran],
      total_acc := total_acc one_taken + summand (Job 7 5 False),
      history := history one_taken @ [Ran (Job 7 5 False)]\<rparr> =
    one_taken\<lparr>pcs := [W_Ran, Idle], total_acc := 5,
      history := [Pushed (Job 7 5 False), Took (Job 7 5 False), Ran (Job 7 5 False)]\<rparr>"
    by (simp add: one_taken_def)
  from job_fate [where t = 0 and j = "Job 7 5 False" and es = "[]" and s' = one_taken, OF r0]
  have "0 < length (pcs one_taken) \<and> pcs one_taken ! 0 = W_Job (Job 7 5 False) \<longrightarrow>
      0 < threadCount one_taken \<and>
      (\<not> throws (Job 7 5 False) \<longrightarrow>
         step (Go 0) one_taken =
           Some (Inr (one_taken\<lparr>pcs := (pcs one_taken)[0 := W_Ran],
              total_acc := total_acc one_taken + summand (Job 7 5 False),
              history := history one_taken @ [Ran (Job 7 5 False)]\<rparr>))) \<and>
      (throws (Job 7 5 False) \<longrightarrow> step (Go 0) one_taken = Some (Inl Terminate))"
    by (elim conjE)
  with l0 have "step (Go 0) one_taken =
      Some (Inr (one_taken\<lparr>pcs := (pcs one_taken)[0 := W_Ran],
        total_acc := total_acc one_taken + summand (Job 7 5 False),
        history := history one_taken @ [Ran (Job 7 5 False)]\<rparr>))"
    by blast
  with e0 have a: "step (Go 0) one_taken =
     Some (Inr (one_taken\<lparr>pcs := [W_Ran, Idle], total_acc := 5,
       history := [Pushed (Job 7 5 False), Took (Job 7 5 False), Ran (Job 7 5 False)]\<rparr>))"
    by simp
  have r1: "reachable (ConcurrentQueue 1 1) one_done"
    by (rule run_reachable [OF run_one_done])
  note q1 = quiescent_one_done
  have l1: "\<not> bailout one_done" "(0::nat) < 1" "distinct (pushed one_done)"
    "pushed one_done = [Job 7 5 False]" "executed one_done = [Job 7 5 False]"
    "drained one_done = []"
    by (simp_all add: one_done_def hist_defs)
  note t1 = job_fate [where t = 0 and j = "Job 7 5 False" and es = "[]" and s' = one_done,
      OF r1]
  from t1 have "quiescent one_done \<and> \<not> bailout one_done \<and> (0::nat) < 1 \<longrightarrow>
      queue one_done = [] \<and>
      mset (pushed one_done) = mset (executed one_done) + mset (drained one_done)"
    by (elim conjE)
  with q1 l1 have b: "queue one_done = []"
    "mset (pushed one_done) = mset (executed one_done) + mset (drained one_done)"
    by blast+
  from t1 have "distinct (pushed one_done) \<longrightarrow>
      distinct (executed one_done @ drained one_done @ queue one_done)"
    by (elim conjE)
  with l1 have c: "distinct (executed one_done @ drained one_done @ queue one_done)"
    by blast
  have r2: "reachable (ConcurrentQueue 0 1) two_cancelled"
  proof -
    have "run [Call 0 (Enqueue (Job 1 5 False)), Go 0, Go 0, Go 0, Go 0,
        Call 0 (Enqueue (Job 2 3 False)), Go 0, Go 0, Go 0, Go 0,
        Call 0 CancelPending, Go 0, Go 0, Go 0, Go 0]
        (ConcurrentQueue 0 1) = Some (Inr two_cancelled)"
      by (simp add: ConcurrentQueue_def two_cancelled_def step_defs return_to_def
          INT_MAX_def Let_def)
    then show ?thesis by (rule run_reachable)
  qed
  have q2: "quiescent two_cancelled"
    by (simp add: quiescent_def two_cancelled_def)
  have l2: "distinct (pushed two_cancelled)" "executed two_cancelled = []"
    "drained two_cancelled = [Job 1 5 False, Job 2 3 False]"
    by (simp_all add: two_cancelled_def hist_defs)
  note t2 = job_fate [where t = 0 and j = "Job 7 5 False" and es = "[]"
      and s' = two_cancelled, OF r2]
  from t2 have "distinct (pushed two_cancelled) \<longrightarrow>
      distinct (executed two_cancelled @ drained two_cancelled @ queue two_cancelled)"
    by (elim conjE)
  with l2 have d: "distinct (executed two_cancelled @ drained two_cancelled @ queue two_cancelled)"
    by blast
  from t2 have "quiescent two_cancelled \<longrightarrow>
      mset (pushed two_cancelled) =
        mset (queue two_cancelled) + mset (executed two_cancelled) + mset (drained two_cancelled)"
    by (elim conjE)
  with q2 have f: "mset (pushed two_cancelled) =
      mset (queue two_cancelled) + mset (executed two_cancelled) + mset (drained two_cancelled)"
    by blast
  show ?thesis
    by (intro conjI) (fact r0 l0 a r1 q1 l1 b c r2 q2 l2 d f)+
qed

subsection \<open>Cancelled counts and the total\<close>



lemma foldl_replay_None [simp]: "foldl replay_step None h = None"
  by (induction h) simp_all















end
